theory Spec2Isabelle
  imports Main "HOL-Library.Multiset" "HOL-Library.Product_Lexorder"
begin

section \<open>Data model\<close>

text \<open>
  The Kanban board of Life PM.  A task carries an identity, a status, an optional
  integer \<open>order\<close> and its timestamps; every descriptive field (title, tags, project,
  checklist, ...) is irrelevant to ordering and is kept in the payload \<open>rest\<close>.
  At run time a status is a plain string (\<open>TaskStatus\<close> is a compile-time union only), so
  it is modelled as a string.  An ISO timestamp is represented by the number that
  \<open>new Date(s).getTime()\<close> reads from it.
\<close>

type_synonym TaskStatus = string

record 'r Task =
  id' :: string
  status :: TaskStatus
  order :: "int option"
  createdAt :: int
  updatedAt :: int
  completedAt :: "int option"
  rest :: 'r

text \<open>The ids of the \<open>COLUMNS\<close> table of the board (labels and colours are presentation).\<close>

definition COLUMNS :: "TaskStatus list" where
  "COLUMNS = [''backlog'', ''todo'', ''in-progress'', ''blocked'', ''done'']"

definition MAX_SAFE_INTEGER :: int where
  "MAX_SAFE_INTEGER = 9007199254740991"

text \<open>What a handler can end with besides a completed move: one of its early
  \<open>return\<close>s (tagged by the guard that fired) or a thrown \<open>TypeError\<close>.\<close>

datatype abort = DroppedOutside | SamePosition | NotFound | InvalidStatus | TypeError

section \<open>Sorting a column\<close>

text \<open>The comparator passed to \<open>Array.prototype.sort\<close>, the same at every call site.\<close>

definition compareTasks :: "'r Task \<Rightarrow> 'r Task \<Rightarrow> int" where
  "compareTasks a b =
     (let orderA = (case order a of Some n \<Rightarrow> n | None \<Rightarrow> MAX_SAFE_INTEGER);
          orderB = (case order b of Some n \<Rightarrow> n | None \<Rightarrow> MAX_SAFE_INTEGER)
      in if orderA \<noteq> orderB then orderA - orderB else createdAt a - createdAt b)"

text \<open>\<open>Array.prototype.sort\<close> is a stable sort: elements the comparator calls equal keep
  their order.  Stable insertion with respect to a comparator.\<close>

fun insertBy :: "('a \<Rightarrow> 'a \<Rightarrow> int) \<Rightarrow> 'a \<Rightarrow> 'a list \<Rightarrow> 'a list" where
  "insertBy cmp x [] = [x]"
| "insertBy cmp x (y # ys) = (if cmp x y \<le> 0 then x # y # ys else y # insertBy cmp x ys)"

definition sortBy :: "('a \<Rightarrow> 'a \<Rightarrow> int) \<Rightarrow> 'a list \<Rightarrow> 'a list" where
  "sortBy cmp xs = foldr (insertBy cmp) xs []"

definition sortTasks :: "'r Task list \<Rightarrow> 'r Task list" where
  "sortTasks = sortBy compareTasks"

text \<open>The key the comparator orders by, for reasoning with the library's \<open>sort_key\<close>.\<close>

definition sortKey :: "'r Task \<Rightarrow> int \<times> int" where
  "sortKey t = (case order t of Some n \<Rightarrow> n | None \<Rightarrow> MAX_SAFE_INTEGER, createdAt t)"

section \<open>Column projection\<close>

text \<open>
  \<open>tasksByStatus\<close>: an object with the five column keys, every task pushed onto the array
  under its status, every array sorted.  Reading a key the object does not have gives
  \<open>undefined\<close>, and calling \<open>push\<close> on it throws.
\<close>

definition emptyGrouped :: "TaskStatus \<rightharpoonup> 'r Task list" where
  "emptyGrouped = map_of (map (\<lambda>c. (c, [])) COLUMNS)"

fun pushAll :: "(TaskStatus \<rightharpoonup> 'r Task list) \<Rightarrow> 'r Task list \<Rightarrow> abort + (TaskStatus \<rightharpoonup> 'r Task list)" where
  "pushAll grouped [] = Inr grouped"
| "pushAll grouped (task # tasks) =
     (case grouped (status task) of
        None \<Rightarrow> Inl TypeError
      | Some column \<Rightarrow> pushAll (grouped(status task \<mapsto> column @ [task])) tasks)"

definition tasksByStatus :: "'r Task list \<Rightarrow> abort + (TaskStatus \<rightharpoonup> 'r Task list)" where
  "tasksByStatus filteredTasks =
     (case pushAll emptyGrouped filteredTasks of
        Inl e \<Rightarrow> Inl e
      | Inr grouped \<Rightarrow> Inr (\<lambda>s. map_option sortTasks (grouped s)))"

section \<open>The task store\<close>

text \<open>\<open>Partial<Task>\<close>: for every field, either absent or the new value.  An update of
  the descriptive fields is a function on the payload.\<close>

record 'r TaskUpdates =
  new_id :: "string option"
  new_status :: "TaskStatus option"
  new_order :: "int option option"
  new_createdAt :: "int option"
  new_completedAt :: "int option option"
  new_rest :: "'r \<Rightarrow> 'r"

definition noUpdates :: "'r TaskUpdates" where
  "noUpdates = \<lparr>new_id = None, new_status = None, new_order = None, new_createdAt = None,
                new_completedAt = None, new_rest = (\<lambda>r. r)\<rparr>"

text \<open>The object spread \<open>{ ...t, ...updates, updatedAt: now }\<close> followed by the
  \<open>completedAt\<close> stamp.\<close>

definition mergeTask :: "int \<Rightarrow> 'r TaskUpdates \<Rightarrow> 'r Task \<Rightarrow> 'r Task" where
  "mergeTask now updates t =
     (let updated = \<lparr>id' = (case new_id updates of Some v \<Rightarrow> v | None \<Rightarrow> id' t),
                     status = (case new_status updates of Some v \<Rightarrow> v | None \<Rightarrow> status t),
                     order = (case new_order updates of Some v \<Rightarrow> v | None \<Rightarrow> order t),
                     createdAt = (case new_createdAt updates of Some v \<Rightarrow> v | None \<Rightarrow> createdAt t),
                     updatedAt = now,
                     completedAt = (case new_completedAt updates of Some v \<Rightarrow> v | None \<Rightarrow> completedAt t),
                     rest = new_rest updates (rest t)\<rparr>
      in if new_status updates = Some ''done'' \<and> status t \<noteq> ''done''
         then updated\<lparr>completedAt := Some now\<rparr> else updated)"

text \<open>\<open>updateTask\<close> of the application context: the new task list that is written back
  to the current profile; without a current profile nothing is written.\<close>

definition updateTask :: "int \<Rightarrow> string \<Rightarrow> 'r TaskUpdates \<Rightarrow> 'r Task list option \<Rightarrow> 'r Task list option" where
  "updateTask now i updates currentProfile =
     (case currentProfile of
        None \<Rightarrow> None
      | Some tasks \<Rightarrow> Some (map (\<lambda>t. if id' t = i then mergeTask now updates t else t) tasks))"

definition updateTaskStatus :: "int \<Rightarrow> string \<Rightarrow> TaskStatus \<Rightarrow> 'r Task list option \<Rightarrow> 'r Task list option" where
  "updateTaskStatus now i s = updateTask now i (noUpdates\<lparr>new_status := Some s\<rparr>)"

text \<open>The two calls the board handler emits (\<open>updateTaskStatus(id, status)\<close> and
  \<open>updateTask(id, { order })\<close>), and what one of them writes.\<close>

datatype StoreCall = UpdateTaskStatus string TaskStatus | UpdateTaskOrder string "int option"

fun applyCall :: "int \<Rightarrow> StoreCall \<Rightarrow> 'r Task list option \<Rightarrow> 'r Task list option" where
  "applyCall now (UpdateTaskStatus i s) p = updateTaskStatus now i s p"
| "applyCall now (UpdateTaskOrder i k) p = updateTask now i (noUpdates\<lparr>new_order := Some k\<rparr>) p"

text \<open>
  The store after a handler has made its calls.  The calls of one handler run come from
  one render: every \<open>updateTask\<close> maps over the \<open>currentProfile.tasks\<close> that render closed
  over, \<open>updateCurrentProfile\<close> puts the result into the \<open>data\<close> that render closed over,
  and \<open>persistData\<close> hands \<open>setData\<close> that value (not an updater function), all before
  the first \<open>await\<close>.  The state updates of one handler are applied in the order they
  were made, so afterwards the store holds what the last call wrote from the task list
  of the render; what the earlier calls wrote is overwritten.
\<close>

definition applyCalls :: "int \<Rightarrow> StoreCall list \<Rightarrow> 'r Task list option \<Rightarrow> 'r Task list option" where
  "applyCalls now calls currentProfile =
     last (currentProfile # map (\<lambda>call. applyCall now call currentProfile) calls)"

section \<open>The drop handler of the board\<close>

text \<open>What the drag library reports: a droppable (a column) and an index in it.  The
  index is a JavaScript number; the library hands over integers, and nothing in the
  handler checks their range.\<close>

record DraggableLocation =
  droppableId :: string
  index :: int

record DropResult =
  destination :: "DraggableLocation option"
  source :: DraggableLocation
  draggableId :: string

fun findIndex :: "('a \<Rightarrow> bool) \<Rightarrow> 'a list \<Rightarrow> nat option" where
  "findIndex P [] = None"
| "findIndex P (x # xs) = (if P x then Some 0 else map_option Suc (findIndex P xs))"

text \<open>\<open>updatedTasks[n] = { ...updatedTasks[n], order: k, updatedAt: now }\<close>\<close>

definition setOrder :: "int \<Rightarrow> nat \<Rightarrow> int \<Rightarrow> 'r Task list \<Rightarrow> 'r Task list" where
  "setOrder now n k updatedTasks = updatedTasks[n := (updatedTasks ! n)\<lparr>order := Some k, updatedAt := now\<rparr>]"

text \<open>The two shifting loops of a cross-column move,
  \<open>for (let i = start; i < column.length; i++)\<close>: the task at position \<open>i\<close> of the sorted
  column is looked up by id and given the order \<open>i + off\<close> (\<open>off\<close> is 1 in the destination
  loop and 0 in the source loop).  At a negative \<open>i\<close> the element \<open>column[i]\<close> is \<open>undefined\<close>,
  and the callback of \<open>findIndex\<close> throws at its first call, when it reads
  \<open>shiftedTask.id\<close>; on an empty task list the callback is never called.\<close>

function shiftLoop :: "int \<Rightarrow> int \<Rightarrow> 'r Task list \<Rightarrow> int \<Rightarrow> 'r Task list \<Rightarrow> abort + 'r Task list" where
  "shiftLoop now off column i updatedTasks =
     (if i < int (length column) then
        if i < 0 then
          if updatedTasks = [] then shiftLoop now off column (i + 1) updatedTasks
          else Inl TypeError
        else
          shiftLoop now off column (i + 1)
            (case findIndex (\<lambda>t. id' t = id' (column ! nat i)) updatedTasks of
               None \<Rightarrow> updatedTasks
             | Some shiftedIndex \<Rightarrow> setOrder now shiftedIndex (i + off) updatedTasks)
      else Inr updatedTasks)"
  by pat_completeness auto
termination
  by (relation "measure (\<lambda>(now, off, column, i, updatedTasks). nat (int (length column) - i))") auto

text \<open>The renumbering \<open>forEach((t, index) => ...)\<close> of a same-column move: a task is
  rewritten only when its order is not yet its position.\<close>

fun renumber :: "int \<Rightarrow> 'r Task list \<Rightarrow> nat \<Rightarrow> 'r Task list \<Rightarrow> 'r Task list" where
  "renumber now [] position updatedTasks = updatedTasks"
| "renumber now (t # ts) position updatedTasks =
     renumber now ts (position + 1)
       (case findIndex (\<lambda>task. id' task = id' t) updatedTasks of
          None \<Rightarrow> updatedTasks
        | Some taskIndex \<Rightarrow>
            if order (updatedTasks ! taskIndex) \<noteq> Some (int position)
            then setOrder now taskIndex (int position) updatedTasks else updatedTasks)"

text \<open>The persisting loop: for every task of the new local list that the context
  knows, the calls that carry its changed status and order to the store.\<close>

definition persistCalls :: "'r Task list \<Rightarrow> 'r Task list \<Rightarrow> StoreCall list" where
  "persistCalls currentTasks updatedTasks =
     concat (map (\<lambda>updatedTask.
       case find (\<lambda>t. id' t = id' updatedTask) currentTasks of
         None \<Rightarrow> []
       | Some originalTask \<Rightarrow>
           if status originalTask \<noteq> status updatedTask then
             UpdateTaskStatus (id' updatedTask) (status updatedTask) #
             (if order originalTask \<noteq> order updatedTask
              then [UpdateTaskOrder (id' updatedTask) (order updatedTask)] else [])
           else if order originalTask \<noteq> order updatedTask
           then [UpdateTaskOrder (id' updatedTask) (order updatedTask)]
           else []) updatedTasks)"

text \<open>A cross-column move on the copied task list.\<close>

definition crossColumn :: "int \<Rightarrow> string \<Rightarrow> nat \<Rightarrow> TaskStatus \<Rightarrow> int \<Rightarrow> TaskStatus \<Rightarrow> int \<Rightarrow> 'r Task list \<Rightarrow> abort + 'r Task list" where
  "crossColumn now taskId taskIndex sourceStatus sourceIndex destinationStatus destinationIndex localTasks =
     (let updatedTasks = localTasks[taskIndex := (localTasks ! taskIndex)
            \<lparr>status := destinationStatus, order := Some destinationIndex, updatedAt := now\<rparr>];
          tasksInDestination =
            sortTasks (filter (\<lambda>t. status t = destinationStatus \<and> id' t \<noteq> taskId) updatedTasks)
      in case shiftLoop now 1 tasksInDestination destinationIndex updatedTasks of
           Inl e \<Rightarrow> Inl e
         | Inr updatedTasks \<Rightarrow>
             let tasksInSource =
                   sortTasks (filter (\<lambda>t. status t = sourceStatus \<and> id' t \<noteq> taskId) updatedTasks)
             in shiftLoop now 0 tasksInSource sourceIndex updatedTasks)"

text \<open>Where \<open>Array.prototype.splice(start, ...)\<close> begins on an array of length \<open>len\<close>: a
  negative \<open>start\<close> counts from the end, and the result is kept within \<open>0..len\<close>.\<close>

definition spliceStart :: "int \<Rightarrow> nat \<Rightarrow> nat" where
  "spliceStart start len = (if start < 0 then nat (max (int len + start) 0) else min (nat start) len)"

text \<open>A reordering within one column.  \<open>splice(oldIndex, 1)\<close> removes nothing when it
  begins at the end of the array; \<open>movedTask\<close> is then \<open>undefined\<close>, it is spliced in all
  the same, and the renumbering throws when it reads \<open>t.id\<close> there, before any state is
  set (the task list is not empty: the dragged task was found in it).\<close>

definition sameColumn :: "int \<Rightarrow> TaskStatus \<Rightarrow> int \<Rightarrow> int \<Rightarrow> 'r Task list \<Rightarrow> abort + 'r Task list" where
  "sameColumn now sourceStatus oldIndex newIndex localTasks =
     (let tasksInStatus = sortTasks (filter (\<lambda>t. status t = sourceStatus) localTasks);
          start = spliceStart oldIndex (length tasksInStatus)
      in if start < length tasksInStatus then
           let movedTask = tasksInStatus ! start;
               removed = take start tasksInStatus @ drop (start + 1) tasksInStatus;
               start' = spliceStart newIndex (length removed);
               reordered = take start' removed @ [movedTask] @ drop start' removed
           in Inr (renumber now reordered 0 localTasks)
         else Inl TypeError)"

text \<open>
  \<open>handleDragEnd\<close> of the board with optimistic local state.  It reads the clock, the
  task list of the context (\<open>currentProfile.tasks\<close>) and the local task list, and ends
  either early, or with the new local list (\<open>setLocalTasks\<close>) and the calls made to the
  store, in the order they are made.
\<close>

definition handleDragEnd :: "int \<Rightarrow> 'r Task list \<Rightarrow> 'r Task list \<Rightarrow> DropResult \<Rightarrow> abort + ('r Task list \<times> StoreCall list)" where
  "handleDragEnd now currentTasks localTasks result =
     (case destination result of
        None \<Rightarrow> Inl DroppedOutside
      | Some dest \<Rightarrow>
          if droppableId dest = droppableId (source result) \<and> index dest = index (source result)
          then Inl SamePosition
          else
            let taskId = draggableId result in
            (case find (\<lambda>t. id' t = taskId) localTasks of
               None \<Rightarrow> Inl NotFound
             | Some task \<Rightarrow>
                 let sourceStatus = droppableId (source result);
                     destinationStatus = droppableId dest in
                 if \<not> (\<exists>c \<in> set COLUMNS. c = sourceStatus) \<or> \<not> (\<exists>c \<in> set COLUMNS. c = destinationStatus)
                 then Inl InvalidStatus
                 else
                   (case findIndex (\<lambda>t. id' t = taskId) localTasks of
                      None \<Rightarrow> Inl NotFound
                    | Some taskIndex \<Rightarrow>
                        (case (if sourceStatus \<noteq> destinationStatus
                               then crossColumn now taskId taskIndex sourceStatus (index (source result))
                                      destinationStatus (index dest) localTasks
                               else sameColumn now sourceStatus (index (source result)) (index dest) localTasks) of
                           Inl e \<Rightarrow> Inl e
                         | Inr updatedTasks \<Rightarrow> Inr (updatedTasks, persistCalls currentTasks updatedTasks)))))"

text \<open>What a drop leaves behind: the local task list and the calls made to the store.
  An early return and a throw happen before \<open>setLocalTasks\<close> and before any call.\<close>

definition localTasksAfter :: "int \<Rightarrow> 'r Task list \<Rightarrow> 'r Task list \<Rightarrow> DropResult \<Rightarrow> 'r Task list" where
  "localTasksAfter now currentTasks localTasks result =
     (case handleDragEnd now currentTasks localTasks result of
        Inl e \<Rightarrow> localTasks | Inr (updatedTasks, calls) \<Rightarrow> updatedTasks)"

definition emittedCalls :: "int \<Rightarrow> 'r Task list \<Rightarrow> 'r Task list \<Rightarrow> DropResult \<Rightarrow> StoreCall list" where
  "emittedCalls now currentTasks localTasks result =
     (case handleDragEnd now currentTasks localTasks result of
        Inl e \<Rightarrow> [] | Inr (updatedTasks, calls) \<Rightarrow> calls)"

text \<open>
  The effect that brings the local list back in step with the context.  It runs after
  a render in which \<open>currentProfile.tasks\<close> or \<open>localTasks\<close> changed, and takes over the
  task list of the context only when the number of tasks changed or the two lists do not
  hold the same ids: a reordering leaves the local list as the handler set it.  The
  result is the local list and the task count remembered in \<open>lastTaskCountRef\<close>.
\<close>

definition syncLocalTasks :: "nat \<Rightarrow> 'r Task list \<Rightarrow> 'r Task list \<Rightarrow> 'r Task list \<times> nat" where
  "syncLocalTasks lastTaskCount currentTasks localTasks =
     (let currentTaskCount = length currentTasks in
      if currentTaskCount \<noteq> lastTaskCount then (currentTasks, currentTaskCount)
      else
        let localTaskIds = map id' localTasks;
            contextTaskIds = map id' currentTasks;
            hasMissingTasks = (\<exists>i \<in> set localTaskIds. i \<notin> set contextTaskIds);
            hasNewTasks = (\<exists>i \<in> set contextTaskIds. i \<notin> set localTaskIds)
        in if hasMissingTasks \<or> hasNewTasks then (currentTasks, currentTaskCount)
           else (localTasks, lastTaskCount))"

text \<open>The cards the board shows, \<open>filteredTasks\<close>.  The two filters read descriptive
  fields only: \<open>projectId\<close> reads the project of a task, and \<open>taskArea\<close> is
  \<open>task.areaId || currentProfile.projects.find(p => p.id === task.projectId)?.areaId\<close>
  (\<open>None\<close> for \<open>undefined\<close>).  The columns that are rendered, and with them the indices the
  drag library reports, are those of \<open>tasksByStatus\<close> on this list; the handler works on
  the whole local list.\<close>

definition filteredTasks ::
  "('r Task \<Rightarrow> string option) \<Rightarrow> ('r Task \<Rightarrow> string option) \<Rightarrow> string \<Rightarrow> string \<Rightarrow> 'r Task list \<Rightarrow> 'r Task list" where
  "filteredTasks projectId taskArea projectFilter areaFilter localTasks =
     filter (\<lambda>task.
       if projectFilter \<noteq> ''all'' \<and> projectId task \<noteq> Some projectFilter then False
       else if areaFilter \<noteq> ''all'' \<and> taskArea task \<noteq> Some areaFilter then False
       else True) localTasks"

text \<open>A column as the board shows it, and the ids in it.\<close>

definition columnOf :: "TaskStatus \<Rightarrow> 'r Task list \<Rightarrow> 'r Task list" where
  "columnOf s tasks = sortTasks (filter (\<lambda>t. status t = s) tasks)"

definition ids :: "'r Task list \<Rightarrow> string list" where
  "ids tasks = map id' tasks"

section \<open>Auxiliary notions\<close>

text \<open>What the loops do to a single task, for the characterisation of a loop as a map
  over the task list (valid when ids are distinct).  \<open>shiftedTask\<close> belongs to \<open>shiftLoop\<close>,
  \<open>renumberedTask\<close> to \<open>renumber\<close>.\<close>

definition shiftedTask :: "int \<Rightarrow> int \<Rightarrow> 'r Task list \<Rightarrow> nat \<Rightarrow> 'r Task \<Rightarrow> 'r Task" where
  "shiftedTask now off col k x =
     (case findIndex (\<lambda>c. id' c = id' x) col of
        None \<Rightarrow> x
      | Some p \<Rightarrow> if k \<le> p then x\<lparr>order := Some (int p + off), updatedAt := now\<rparr> else x)"

definition renumberedTask :: "int \<Rightarrow> 'r Task list \<Rightarrow> nat \<Rightarrow> 'r Task \<Rightarrow> 'r Task" where
  "renumberedTask now col k x =
     (case findIndex (\<lambda>c. id' c = id' x) col of
        None \<Rightarrow> x
      | Some p \<Rightarrow> if order x \<noteq> Some (int (k + p)) then x\<lparr>order := Some (int (k + p)), updatedAt := now\<rparr> else x)"

text \<open>What a cross-column move does to a single task: the assignment to the moved
  task, then the two shifting loops.  \<open>removedAt\<close> and \<open>insertedAt\<close> are the sequences a move
  asks for in the source and in the destination column, and a column is \<open>numbered\<close> when
  the orders of its tasks are their positions 0, 1, 2, ...\<close>

definition movedTask :: "int \<Rightarrow> TaskStatus \<Rightarrow> nat \<Rightarrow> 'r Task \<Rightarrow> 'r Task" where
  "movedTask now destinationStatus destinationIndex x =
     x\<lparr>status := destinationStatus, order := Some (int destinationIndex), updatedAt := now\<rparr>"

definition removedAt :: "nat \<Rightarrow> 'a list \<Rightarrow> 'a list" where
  "removedAt i col = take i col @ drop (Suc i) col"

definition insertedAt :: "nat \<Rightarrow> 'a \<Rightarrow> 'a list \<Rightarrow> 'a list" where
  "insertedAt j x col = take j col @ [x] @ drop j col"

definition crossMoved :: "int \<Rightarrow> string \<Rightarrow> TaskStatus \<Rightarrow> nat \<Rightarrow> 'r Task list \<Rightarrow> nat \<Rightarrow> 'r Task list \<Rightarrow> 'r Task \<Rightarrow> 'r Task" where
  "crossMoved now taskId destinationStatus j D i S' x =
     shiftedTask now 0 S' i (shiftedTask now 1 D j
       (if id' x = taskId then movedTask now destinationStatus j x else x))"

definition numbered :: "'r Task list \<Rightarrow> bool" where
  "numbered col \<longleftrightarrow> map order col = map (\<lambda>p. Some (int p)) [0..<length col]"

text \<open>The sequence a move within a column gives: the element at position \<open>i\<close> taken
  out and put back at position \<open>j\<close> (at the end when \<open>j\<close> is past it).\<close>

definition reinserted :: "nat \<Rightarrow> nat \<Rightarrow> 'a list \<Rightarrow> 'a list" where
  "reinserted i j col =
     (let removed = take i col @ drop (Suc i) col
      in take j removed @ [col ! i] @ drop j removed)"

text \<open>Example data: a task without descriptive fields, a drop of a card, and the board
  of the reordering example (three cards in the \<open>todo\<close> column).\<close>

definition plainTask :: "string \<Rightarrow> TaskStatus \<Rightarrow> int option \<Rightarrow> int \<Rightarrow> unit Task" where
  "plainTask i s k c =
     \<lparr>id' = i, status = s, order = k, createdAt = c, updatedAt = c, completedAt = None, rest = ()\<rparr>"

definition dropOf :: "string \<Rightarrow> TaskStatus \<Rightarrow> int \<Rightarrow> TaskStatus \<Rightarrow> int \<Rightarrow> DropResult" where
  "dropOf i s si d di =
     \<lparr>destination = Some \<lparr>droppableId = d, index = di\<rparr>,
      source = \<lparr>droppableId = s, index = si\<rparr>, draggableId = i\<rparr>"

definition todoBoard :: "unit Task list" where
  "todoBoard = [plainTask ''a'' ''todo'' (Some 0) 1, plainTask ''b'' ''todo'' (Some 1) 2,
                plainTask ''c'' ''todo'' (Some 2) 3]"


definition pairBoard :: "unit Task list" where
  "pairBoard = [plainTask ''x'' ''todo'' None 1, plainTask ''t'' ''todo'' None 2]"

text \<open>A board whose cards were never ordered (a new card has no \<open>order\<close>), a board
  with gaps in the numbering of the \<open>done\<close> column, and a board with a card of a status the
  board does not know.\<close>

definition freshBoard :: "unit Task list" where
  "freshBoard = [plainTask ''a'' ''todo'' None 1, plainTask ''b'' ''done'' None 2,
                 plainTask ''c'' ''done'' None 3]"

definition gapBoard :: "unit Task list" where
  "gapBoard = [plainTask ''a'' ''todo'' (Some 0) 1, plainTask ''x'' ''done'' (Some 5) 2,
               plainTask ''y'' ''done'' (Some 7) 3]"

definition archivedBoard :: "unit Task list" where
  "archivedBoard = [plainTask ''a'' ''todo'' (Some 0) 1, plainTask ''z'' ''archived'' (Some 0) 2]"

text \<open>The board of the reordering example after \<open>a\<close> was dropped at position 2 (clock
  100): \<open>reorderedBoard\<close> is the local list the handler sets, \<open>staleBoard\<close> is the task
  list of the context, in which only the last of the three calls has arrived.\<close>

definition reorderedBoard :: "unit Task list" where
  "reorderedBoard = [(plainTask ''a'' ''todo'' (Some 2) 1)\<lparr>updatedAt := 100\<rparr>,
                     (plainTask ''b'' ''todo'' (Some 0) 2)\<lparr>updatedAt := 100\<rparr>,
                     (plainTask ''c'' ''todo'' (Some 1) 3)\<lparr>updatedAt := 100\<rparr>]"

definition staleBoard :: "unit Task list" where
  "staleBoard = [plainTask ''a'' ''todo'' (Some 0) 1, plainTask ''b'' ''todo'' (Some 1) 2,
                 (plainTask ''c'' ''todo'' (Some 1) 3)\<lparr>updatedAt := 100\<rparr>]"

text \<open>A board whose tasks belong to projects (the payload is the \<open>projectId\<close>): with the
  project filter set to \<open>p1\<close> the card \<open>h\<close> of project \<open>p2\<close> is not shown.\<close>

definition projectTask :: "string \<Rightarrow> TaskStatus \<Rightarrow> int option \<Rightarrow> int \<Rightarrow> string \<Rightarrow> string option Task" where
  "projectTask i s k c p =
     \<lparr>id' = i, status = s, order = k, createdAt = c, updatedAt = c, completedAt = None, rest = Some p\<rparr>"

definition hiddenBoard :: "string option Task list" where
  "hiddenBoard = [projectTask ''h'' ''todo'' (Some 0) 1 ''p2'', projectTask ''a'' ''todo'' (Some 1) 2 ''p1'',
                  projectTask ''b'' ''todo'' (Some 2) 3 ''p1'']"

section \<open>Basic facts\<close>

lemma compareTasks_le: "compareTasks a b \<le> 0 \<longleftrightarrow> sortKey a \<le> sortKey b"
  by (auto simp: compareTasks_def sortKey_def Let_def)

lemma insertBy_insort: "insertBy compareTasks x ys = insort_key sortKey x ys"
  by (induction ys) (simp_all add: compareTasks_le)

lemma sortTasks_sort_key: "sortTasks xs = sort_key sortKey xs"
  by (induction xs) (simp_all add: sortTasks_def sortBy_def insertBy_insort)

lemma find_None_ids: "find (\<lambda>t. id' t = i) ts = None \<longleftrightarrow> i \<notin> set (ids ts)"
  by (auto simp: find_None_iff ids_def)

subsection \<open>Looking a task up by its id\<close>

lemma findIndex_SomeD:
  "findIndex P xs = Some n \<Longrightarrow> n < length xs \<and> P (xs ! n) \<and> (\<forall>m < n. \<not> P (xs ! m))"
proof (induction xs arbitrary: n)
  case Nil
  then show ?case by simp
next
  case (Cons x xs)
  show ?case
  proof (cases "P x")
    case True
    with Cons.prems show ?thesis by simp
  next
    case False
    with Cons.prems obtain k where k: "findIndex P xs = Some k" "n = Suc k" by auto
    from Cons.IH [OF k(1)] False k(2) show ?thesis
      by (auto simp: nth_Cons split: nat.splits)
  qed
qed

lemma findIndex_None_iff: "findIndex P xs = None \<longleftrightarrow> (\<forall>x \<in> set xs. \<not> P x)"
  by (induction xs) auto

lemma findIndex_id_None: "findIndex (\<lambda>c. id' c = a) ts = None \<longleftrightarrow> a \<notin> set (ids ts)"
  by (induction ts) (auto simp: ids_def)

lemma findIndex_distinct_nth:
  "distinct (ids xs) \<Longrightarrow> p < length xs \<Longrightarrow> findIndex (\<lambda>c. id' c = id' (xs ! p)) xs = Some p"
proof (induction xs arbitrary: p)
  case Nil
  then show ?case by simp
next
  case (Cons x xs)
  show ?case
  proof (cases p)
    case 0
    then show ?thesis by simp
  next
    case (Suc q)
    with Cons.prems have q: "q < length xs" and d: "distinct (ids xs)" and "id' x \<notin> set (ids xs)"
      by (simp_all add: ids_def)
    then have "id' x \<noteq> id' (xs ! q)" by (auto simp: ids_def)
    with Cons.IH [OF d q] Suc show ?thesis by simp
  qed
qed

lemma map_other_id:
  "a \<notin> set (ids u) \<Longrightarrow> map (\<lambda>x. if id' x = a then f x else x) u = u"
  by (induction u) (auto simp: ids_def)

lemma ids_map_preserving: "(\<And>x. id' (f x) = id' x) \<Longrightarrow> ids (map f u) = ids u"
  by (induction u) (simp_all add: ids_def)

lemma update_first_by_id:
  "distinct (ids u) \<Longrightarrow>
     (case findIndex (\<lambda>x. id' x = a) u of None \<Rightarrow> u | Some n \<Rightarrow> u[n := f (u ! n)])
       = map (\<lambda>x. if id' x = a then f x else x) u"
proof (induction u)
  case Nil
  then show ?case by simp
next
  case (Cons x u)
  then have d: "distinct (ids u)" and nx: "id' x \<notin> set (ids u)" by (simp_all add: ids_def)
  show ?case
  proof (cases "id' x = a")
    case True
    from nx True have "a \<notin> set (ids u)" by simp
    then have "map (\<lambda>x. if id' x = a then f x else x) u = u"
      by (rule map_other_id)
    with True show ?thesis by simp
  next
    case False
    with Cons.IH [OF d] show ?thesis
      by (cases "findIndex (\<lambda>x. id' x = a) u") simp_all
  qed
qed

lemma same_id_same_task:
  "distinct (ids u) \<Longrightarrow> a \<in> set u \<Longrightarrow> b \<in> set u \<Longrightarrow> id' a = id' b \<Longrightarrow> a = b"
  by (auto simp: ids_def distinct_map dest: inj_onD)

lemma find_by_id:
  "distinct (ids u) \<Longrightarrow> x \<in> set u \<Longrightarrow> find (\<lambda>t. id' t = id' x) u = Some x"
proof (induction u)
  case Nil
  then show ?case by simp
next
  case (Cons a u)
  then show ?case by (auto simp: ids_def)
qed

lemma distinct_ids_filter: "distinct (ids u) \<Longrightarrow> distinct (ids (filter P u))"
  by (simp add: ids_def distinct_map_filter)

lemma distinct_ids_mset: "mset xs = mset ys \<Longrightarrow> distinct (ids xs) \<Longrightarrow> distinct (ids ys)"
proof -
  assume m: "mset xs = mset ys" and d: "distinct (ids xs)"
  from m have "image_mset id' (mset xs) = image_mset id' (mset ys)" by simp
  then have "mset (ids xs) = mset (ids ys)" by (simp only: ids_def mset_map)
  from mset_eq_imp_distinct_iff [OF this] d show ?thesis by simp
qed

subsection \<open>Sorting\<close>

lemma mset_sortTasks[simp]: "mset (sortTasks xs) = mset xs"
  by (simp add: sortTasks_sort_key)

lemma set_sortTasks [simp]: "set (sortTasks xs) = set xs"
  by (simp add: sortTasks_sort_key)

lemma length_sortTasks [simp]: "length (sortTasks xs) = length xs"
  by (simp add: sortTasks_sort_key)

lemma distinct_ids_columnOf: "distinct (ids u) \<Longrightarrow> distinct (ids (columnOf s u))"
  unfolding columnOf_def
  by (rule distinct_ids_mset [of "filter (\<lambda>t. status t = s) u"]) (simp_all add: distinct_ids_filter)

lemma set_columnOf [simp]: "set (columnOf s u) = {t \<in> set u. status t = s}"
  by (simp add: columnOf_def)

lemma sortTasks_sorted: "sorted_wrt (\<lambda>a b. compareTasks a b \<le> 0) (sortTasks xs)"
proof -
  have "sorted (map sortKey (sort_key sortKey xs))" by (rule sorted_sort_key)
  then show ?thesis
    by (simp add: sortTasks_sort_key sorted_map compareTasks_le)
qed

text \<open>A list whose orders are its positions is the sorted form of each of its
  permutations.\<close>

lemma numbered_key:
  "\<forall>p < length ys. order (ys ! p) = Some (int p) \<Longrightarrow> p < length ys \<Longrightarrow> sortKey (ys ! p) = (int p, createdAt (ys ! p))"
  by (simp add: sortKey_def)

lemma numbered_inj:
  assumes n: "\<forall>p < length ys. order (ys ! p) = Some (int p)"
  shows "inj_on sortKey (set ys)"
proof (rule inj_onI)
  fix a b assume a: "a \<in> set ys" and b: "b \<in> set ys" and e: "sortKey a = sortKey b"
  from a obtain p where p: "p < length ys" "a = ys ! p" by (auto simp: in_set_conv_nth)
  from b obtain q where q: "q < length ys" "b = ys ! q" by (auto simp: in_set_conv_nth)
  from numbered_key [OF n p(1)] numbered_key [OF n q(1)] e
  have "int p = int q" unfolding p(2) q(2) by (simp only: prod.inject)
  then show "a = b" unfolding p(2) q(2) by simp
qed

lemma numbered_sorted:
  assumes n: "\<forall>p < length ys. order (ys ! p) = Some (int p)"
  shows "sorted (map sortKey ys)"
  unfolding sorted_iff_nth_mono_less
proof (intro allI impI)
  fix p q assume pq: "p < q" and q: "q < length (map sortKey ys)"
  then have lp: "p < length ys" and lq: "q < length ys" by simp_all
  have "sortKey (ys ! p) \<le> sortKey (ys ! q)"
    unfolding numbered_key [OF n lp] numbered_key [OF n lq] using pq by (simp add: less_eq_prod_def)
  with lp lq show "map sortKey ys ! p \<le> map sortKey ys ! q" by simp
qed

lemma sortTasks_numbered:
  assumes m: "mset xs = mset ys" and n: "\<forall>p < length ys. order (ys ! p) = Some (int p)"
  shows "sortTasks xs = ys"
proof -
  from m have "set xs = set ys" by (rule mset_eq_setD)
  with numbered_inj [OF n] have inj: "inj_on sortKey (set xs)" by simp
  from m inj numbered_sorted [OF n] show ?thesis
    unfolding sortTasks_sort_key by (rule sort_key_inj_key_eq)
qed

subsection \<open>Reinsertion\<close>

lemma mset_reinserted: "i < length col \<Longrightarrow> mset (reinserted i j col) = mset col"
proof -
  assume i: "i < length col"
  let ?r = "take i col @ drop (Suc i) col"
  have "mset (take j ?r) + mset (drop j ?r) = mset ?r"
    by (metis append_take_drop_id mset_append)
  then have "mset (reinserted i j col) = add_mset (col ! i) (mset ?r)"
    unfolding reinserted_def Let_def by (simp only: mset_append mset.simps) simp
  also have "\<dots> = mset (take i col @ col ! i # drop (Suc i) col)" by simp
  also have "\<dots> = mset col" using i by (simp only: id_take_nth_drop [symmetric])
  finally show ?thesis .
qed

lemma length_reinserted: "i < length col \<Longrightarrow> length (reinserted i j col) = length col"
proof -
  assume "i < length col"
  then have "size (mset (reinserted i j col)) = size (mset col)" by (simp only: mset_reinserted)
  then show ?thesis by (simp only: size_mset)
qed

lemma reinserted_nth: "i < length col \<Longrightarrow> j < length col \<Longrightarrow> reinserted i j col ! j = col ! i"
proof -
  assume i: "i < length col" and j: "j < length col"
  let ?r = "take i col @ drop (Suc i) col"
  from i j have "length (take j ?r) = j" by simp
  then have "(take j ?r @ [col ! i] @ drop j ?r) ! j = col ! i"
    by (metis append_Cons nth_append_length)
  then show ?thesis by (simp only: reinserted_def Let_def)
qed



subsection \<open>The loops as maps\<close>

lemma id_shiftedTask [simp]: "id' (shiftedTask now off col k x) = id' x"
  by (simp add: shiftedTask_def split: option.splits)

lemma status_shiftedTask [simp]: "status (shiftedTask now off col k x) = status x"
  by (simp add: shiftedTask_def split: option.splits)

lemma id_renumberedTask [simp]: "id' (renumberedTask now col k x) = id' x"
  by (simp add: renumberedTask_def split: option.splits)

lemma status_renumberedTask [simp]: "status (renumberedTask now col k x) = status x"
  by (simp add: renumberedTask_def split: option.splits)

lemma renumber_map:
  "distinct (ids u) \<Longrightarrow> distinct (ids ts) \<Longrightarrow> renumber now ts k u = map (renumberedTask now ts k) u"
proof (induction ts arbitrary: k u)
  case Nil
  then show ?case by (simp add: renumberedTask_def)
next
  case (Cons t ts)
  let ?F = "\<lambda>x. if order x \<noteq> Some (int k) then x\<lparr>order := Some (int k), updatedAt := now\<rparr> else x"
  let ?g = "\<lambda>x. if id' x = id' t then ?F x else x"
  let ?u1 = "case findIndex (\<lambda>task. id' task = id' t) u of
          None \<Rightarrow> u
        | Some taskIndex \<Rightarrow>
            if order (u ! taskIndex) \<noteq> Some (int k)
            then setOrder now taskIndex (int k) u else u"
  have "?u1 = (case findIndex (\<lambda>x. id' x = id' t) u of None \<Rightarrow> u | Some n \<Rightarrow> u[n := ?F (u ! n)])"
    by (simp add: setOrder_def split: option.splits)
  also have "\<dots> = map ?g u" using Cons.prems(1) by (rule update_first_by_id)
  finally have u1: "?u1 = map ?g u" .
  have "ids (map ?g u) = ids u" by (rule ids_map_preserving) simp
  with Cons.prems(1) have d1: "distinct (ids (map ?g u))" by (simp only:)
  from Cons.prems(2) have dts: "distinct (ids ts)"
    and nt: "id' t \<notin> set (ids ts)" by (simp_all add: ids_def)
  have step: "renumberedTask now ts (k + 1) (?g x) = renumberedTask now (t # ts) k x" for x
  proof (cases "id' x = id' t")
    case True
    with nt have "findIndex (\<lambda>c. id' c = id' x) ts = None"
      by (simp add: findIndex_id_None)
    with True show ?thesis by (simp add: renumberedTask_def)
  next
    case False
    then have "id' t \<noteq> id' x" by simp
    with False show ?thesis
      by (simp add: renumberedTask_def split: option.splits)
  qed
  have "renumber now (t # ts) k u = renumber now ts (k + 1) ?u1" by simp
  also have "\<dots> = map (renumberedTask now ts (k + 1)) (map ?g u)"
    unfolding u1 using d1 dts by (rule Cons.IH)
  also have "\<dots> = map (renumberedTask now (t # ts) k) u"
    unfolding map_map comp_def step ..
  finally show ?case .
qed

lemma shiftLoop_map:
  "distinct (ids u) \<Longrightarrow> distinct (ids col) \<Longrightarrow> 0 \<le> i \<Longrightarrow>
     shiftLoop now off col i u = Inr (map (shiftedTask now off col (nat i)) u)"
proof (induction now off col i u rule: shiftLoop.induct)
  case (1 now off col i u)
  define k where "k = nat i"
  with "1.prems"(3) have ik: "i = int k" and nn: "\<not> i < 0" and k1: "nat (i + 1) = k + 1"
    by simp_all
  show ?case
  proof (cases "i < int (length col)")
    case False
    then have nl: "\<not> k < length col" unfolding ik by simp
    have "shiftedTask now off col k x = x" for x
      using nl by (auto simp: shiftedTask_def dest: findIndex_SomeD split: option.splits)
    then have "map (shiftedTask now off col k) u = u" by (simp add: map_idI)
    with False show ?thesis unfolding k_def [symmetric] by (simp add: shiftLoop.simps [of now off col i u])
  next
    case True
    then have kl: "k < length col" unfolding ik by simp
    let ?F = "\<lambda>x. x\<lparr>order := Some (int k + off), updatedAt := now\<rparr>"
    let ?g = "\<lambda>x. if id' x = id' (col ! k) then ?F x else x"
    let ?u1 = "case findIndex (\<lambda>t. id' t = id' (col ! nat i)) u of
             None \<Rightarrow> u
           | Some shiftedIndex \<Rightarrow> setOrder now shiftedIndex (i + off) u"
    have "?u1 = (case findIndex (\<lambda>x. id' x = id' (col ! k)) u of None \<Rightarrow> u | Some n \<Rightarrow> u[n := ?F (u ! n)])"
      unfolding k_def [symmetric] by (simp add: setOrder_def ik split: option.splits)
    also have "\<dots> = map ?g u" using "1.prems"(1) by (rule update_first_by_id)
    finally have u1: "?u1 = map ?g u" .
    have "ids (map ?g u) = ids u" by (rule ids_map_preserving) simp
    with "1.prems"(1) have d1: "distinct (ids ?u1)" unfolding u1 by (simp only:)
    have fi: "findIndex (\<lambda>c. id' c = id' (col ! k)) col = Some k"
      using "1.prems"(2) kl by (rule findIndex_distinct_nth)
    have step: "shiftedTask now off col (k + 1) (?g x) = shiftedTask now off col k x" for x
    proof (cases "id' x = id' (col ! k)")
      case True
      with fi show ?thesis by (simp add: shiftedTask_def)
    next
      case False
      have "p \<noteq> k" if "findIndex (\<lambda>c. id' c = id' x) col = Some p" for p
        using findIndex_SomeD [OF that] False by auto
      then have "(k + 1 \<le> p) = (k \<le> p)" if "findIndex (\<lambda>c. id' c = id' x) col = Some p" for p
        using that by fastforce
      with False show ?thesis
        by (simp add: shiftedTask_def split: option.splits)
    qed
    have nonneg: "0 \<le> i + 1" using "1.prems"(3) by simp
    have "shiftLoop now off col i u = shiftLoop now off col (i + 1) ?u1"
      using True nn by (simp add: shiftLoop.simps [of now off col i u])
    also have "\<dots> = Inr (map (shiftedTask now off col (nat (i + 1))) ?u1)"
      using True nn d1 "1.prems"(2) nonneg by (rule "1.IH"(2))
    also have "\<dots> = Inr (map (shiftedTask now off col k) u)"
      unfolding u1 k1 map_map comp_def step ..
    finally show ?thesis unfolding k_def [symmetric] .
  qed
qed


lemma order_renumberedTask:
  "distinct (ids seq) \<Longrightarrow> p < length seq \<Longrightarrow> order (renumberedTask now seq k (seq ! p)) = Some (int (k + p))"
  by (simp add: renumberedTask_def findIndex_distinct_nth)

lemma renumberedTask_other:
  "id' x \<notin> set (ids seq) \<Longrightarrow> renumberedTask now seq k x = x"
proof -
  assume "id' x \<notin> set (ids seq)"
  then have "findIndex (\<lambda>c. id' c = id' x) seq = None" by (simp add: findIndex_id_None)
  then show ?thesis by (simp add: renumberedTask_def)
qed

lemma persistCalls_sync:
  assumes d: "distinct (ids u)" and f: "\<And>x. id' (f x) = id' x"
  shows "persistCalls u (map f u) =
     concat (map (\<lambda>x.
        if status x \<noteq> status (f x) then
          UpdateTaskStatus (id' x) (status (f x)) #
          (if order x \<noteq> order (f x) then [UpdateTaskOrder (id' x) (order (f x))] else [])
        else if order x \<noteq> order (f x) then [UpdateTaskOrder (id' x) (order (f x))]
        else []) u)"
proof -
  have "find (\<lambda>t. id' t = id' (f x)) u = Some x" if "x \<in> set u" for x
    using find_by_id [OF d that] by (simp add: f)
  then show ?thesis
    unfolding persistCalls_def map_map comp_def
    by (simp add: f cong: map_cong if_cong)
qed

lemma distinct_order_calls:
  "distinct (ids u) \<Longrightarrow>
     distinct (concat (map (\<lambda>x. if P x then [UpdateTaskOrder (id' x) (g x)] else []) u))"
proof (induction u)
  case Nil
  then show ?case by simp
next
  case (Cons a u)
  then have d: "distinct (ids u)" and na: "id' a \<notin> set (ids u)" by (simp_all add: ids_def)
  have "UpdateTaskOrder (id' a) k \<notin> set (concat (map (\<lambda>x. if P x then [UpdateTaskOrder (id' x) (g x)] else []) u))" for k
    using na by (auto simp: ids_def)
  with Cons.IH [OF d] show ?case by simp
qed

lemma columnOf_map_preserving:
  assumes "\<And>x. status (f x) = status x"
  shows "filter (\<lambda>t. status t = s) (map f u) = map f (filter (\<lambda>t. status t = s) u)"
  by (simp add: filter_map comp_def assms)

lemma spliceStart_int [simp]: "spliceStart (int i) n = min i n"
  by (simp add: spliceStart_def)

lemma take_min_length: "take (min j (length xs)) xs = take j xs"
  by (cases "j \<le> length xs") (simp_all add: min_def)

lemma drop_min_length: "drop (min j (length xs)) xs = drop j xs"
  by (cases "j \<le> length xs") (simp_all add: min_def)

lemma reinserted_min: "i < length col \<Longrightarrow> reinserted i (min j (length col - 1)) col = reinserted i j col"
proof -
  assume i: "i < length col"
  let ?r = "take i col @ drop (Suc i) col"
  from i have l: "length col - 1 = length ?r" by simp
  show ?thesis unfolding reinserted_def Let_def l take_min_length drop_min_length ..
qed



lemma sameColumn_reinserted:
  assumes "i < length (columnOf s localTasks)"
  shows "sameColumn now s (int i) dj localTasks =
     Inr (renumber now (reinserted i (spliceStart dj (length (columnOf s localTasks) - 1))
                          (columnOf s localTasks)) 0 localTasks)"
proof -
  let ?col = "columnOf s localTasks"
  from assms have l: "length (take i ?col @ drop (i + 1) ?col) = length ?col - 1" by simp
  from assms have m: "min i (length ?col) = i" by simp
  show ?thesis
    unfolding sameColumn_def columnOf_def [symmetric] Let_def spliceStart_int m l reinserted_def
    using assms by simp
qed

lemma same_column_state:
  fixes localTasks :: "'r Task list" and seq updatedTasks
  assumes d: "distinct (ids localTasks)" and i: "i < length (columnOf s localTasks)"
    and seq_def: "seq = reinserted i (spliceStart dj (length (columnOf s localTasks) - 1)) (columnOf s localTasks)"
    and updatedTasks_def: "updatedTasks = map (renumberedTask now seq 0) localTasks"
  shows "sameColumn now s (int i) dj localTasks = Inr updatedTasks"
    and "columnOf s updatedTasks = map (renumberedTask now seq 0) seq"
    and "\<And>x. x \<in> set localTasks \<Longrightarrow> status x \<noteq> s \<Longrightarrow> renumberedTask now seq 0 x = x"
    and "distinct (ids seq)"
proof -
  let ?col = "columnOf s localTasks"
  let ?rl = "renumberedTask now seq 0"
  have ms: "mset seq = mset ?col" unfolding seq_def using i by (rule mset_reinserted)
  have dcol: "distinct (ids ?col)" using d by (rule distinct_ids_columnOf)
  from ms [symmetric] dcol show dseq: "distinct (ids seq)" by (rule distinct_ids_mset)
  have "sameColumn now s (int i) dj localTasks = Inr (renumber now seq 0 localTasks)"
    unfolding seq_def using i by (rule sameColumn_reinserted)
  also have "renumber now seq 0 localTasks = updatedTasks"
    unfolding updatedTasks_def using d dseq by (rule renumber_map)
  finally show "sameColumn now s (int i) dj localTasks = Inr updatedTasks" .
  have "mset (map ?rl (filter (\<lambda>t. status t = s) localTasks)) = mset (map ?rl seq)"
    using ms by (simp add: columnOf_def)
  moreover have "\<forall>p < length (map ?rl seq). order (map ?rl seq ! p) = Some (int p)"
    using order_renumberedTask [OF dseq, of _ now 0] by simp
  ultimately have "sortTasks (map ?rl (filter (\<lambda>t. status t = s) localTasks)) = map ?rl seq"
    by (rule sortTasks_numbered)
  then show "columnOf s updatedTasks = map ?rl seq"
    by (simp add: columnOf_def updatedTasks_def columnOf_map_preserving)
  show "?rl x = x" if x: "x \<in> set localTasks" and sx: "status x \<noteq> s" for x
  proof (rule renumberedTask_other, rule notI)
    assume "id' x \<in> set (ids seq)"
    then obtain y where y: "y \<in> set seq" "id' y = id' x" by (auto simp: ids_def)
    from y(1) ms have "y \<in> set ?col" by (metis set_mset_mset)
    then have yl: "y \<in> set localTasks" and ys: "status y = s" by simp_all
    from same_id_same_task [OF d yl x y(2)] ys sx show False by simp
  qed
qed

lemma handleDragEnd_same_column:
  assumes t: "taskId \<in> set (ids localTasks)" and s: "s \<in> set COLUMNS" and ij: "dj \<noteq> si"
  shows "handleDragEnd now currentTasks localTasks (dropOf taskId s si s dj) =
     (case sameColumn now s si dj localTasks of
        Inl e \<Rightarrow> Inl e
      | Inr updatedTasks \<Rightarrow> Inr (updatedTasks, persistCalls currentTasks updatedTasks))"
proof -
  from t obtain task where f: "find (\<lambda>t. id' t = taskId) localTasks = Some task"
    using find_None_ids [of taskId localTasks] by (cases "find (\<lambda>t. id' t = taskId) localTasks") auto
  from t obtain n where n: "findIndex (\<lambda>t. id' t = taskId) localTasks = Some n"
    using findIndex_id_None [of taskId localTasks] by (cases "findIndex (\<lambda>t. id' t = taskId) localTasks") auto
  from ij s show ?thesis
    by (simp add: handleDragEnd_def dropOf_def f n)
qed

lemma same_column_calls:
  assumes d: "distinct (ids localTasks)" and dseq: "distinct (ids seq)"
    and sub: "set seq \<subseteq> set localTasks"
  shows "set (persistCalls localTasks (map (renumberedTask now seq 0) localTasks)) =
     {UpdateTaskOrder (id' t) (Some (int p)) | t p. p < length seq \<and> t = seq ! p \<and> order t \<noteq> Some (int p)}"
    (is "?L = ?R")
    and "distinct (persistCalls localTasks (map (renumberedTask now seq 0) localTasks))"
proof -
  let ?rl = "renumberedTask now seq 0"
  have calls: "persistCalls localTasks (map ?rl localTasks) =
      concat (map (\<lambda>x. if order x \<noteq> order (?rl x) then [UpdateTaskOrder (id' x) (order (?rl x))] else [])
        localTasks)"
    unfolding persistCalls_sync [OF d, of ?rl, OF id_renumberedTask] by simp
  show "distinct (persistCalls localTasks (map ?rl localTasks))"
    unfolding calls using d by (rule distinct_order_calls)
  have L: "?L = {UpdateTaskOrder (id' x) (order (?rl x)) | x. x \<in> set localTasks \<and> order x \<noteq> order (?rl x)}"
    unfolding calls by auto
  have at: "order (?rl (seq ! p)) = Some (int p)" if "p < length seq" for p
    using order_renumberedTask [OF dseq that, of now 0] by simp
  show "?L = ?R" unfolding L
  proof (intro equalityI subsetI)
    fix c assume "c \<in> {UpdateTaskOrder (id' x) (order (?rl x)) | x. x \<in> set localTasks \<and> order x \<noteq> order (?rl x)}"
    then obtain x where x: "x \<in> set localTasks" "order x \<noteq> order (?rl x)"
      and c: "c = UpdateTaskOrder (id' x) (order (?rl x))" by blast
    from x(2) have "?rl x \<noteq> x" by auto
    then have "id' x \<in> set (ids seq)" using renumberedTask_other [of x seq now 0] by blast
    then obtain p where p: "p < length seq" "id' (seq ! p) = id' x"
      by (auto simp: ids_def in_set_conv_nth)
    from p(1) sub have "seq ! p \<in> set localTasks" by auto
    from same_id_same_task [OF d this x(1) p(2)] have e: "seq ! p = x" .
    from at [OF p(1)] e have "order (?rl x) = Some (int p)" by simp
    with x(2) c e p(1) show "c \<in> ?R" by auto
  next
    fix c assume "c \<in> ?R"
    then obtain p where p: "p < length seq" "order (seq ! p) \<noteq> Some (int p)"
      and c: "c = UpdateTaskOrder (id' (seq ! p)) (Some (int p))" by blast
    from p(1) sub have "seq ! p \<in> set localTasks" by auto
    moreover from at [OF p(1)] p(2) have "order (seq ! p) \<noteq> order (?rl (seq ! p))" by simp
    ultimately show "c \<in> {UpdateTaskOrder (id' x) (order (?rl x)) | x. x \<in> set localTasks \<and> order x \<noteq> order (?rl x)}"
      using c at [OF p(1)] by auto
  qed
qed

subsection \<open>A cross-column move as a map\<close>

lemma filter_map_fixed:
  assumes "\<And>x. x \<in> set u \<Longrightarrow> P (f x) = P x" and "\<And>x. x \<in> set u \<Longrightarrow> P x \<Longrightarrow> f x = x"
  shows "filter P (map f u) = filter P u"
  using assms by (induction u) auto

lemma filter_other_id:
  "distinct (ids xs) \<Longrightarrow> i < length xs \<Longrightarrow>
     filter (\<lambda>x. id' x \<noteq> id' (xs ! i)) xs = removedAt i xs"
proof -
  assume d: "distinct (ids xs)" and i: "i < length xs"
  have neq: "id' y \<noteq> id' (xs ! i)" if "y \<in> set (take i xs) \<or> y \<in> set (drop (Suc i) xs)" for y
  proof
    assume e: "id' y = id' (xs ! i)"
    from that have "y \<in> set xs" by (auto dest: in_set_takeD in_set_dropD)
    from same_id_same_task [OF d this nth_mem [OF i] e] have yi: "y = xs ! i" .
    from d have dx: "distinct xs" by (simp add: ids_def distinct_map)
    from i have "xs = take i xs @ xs ! i # drop (Suc i) xs" by (rule id_take_nth_drop)
    with dx have "distinct (take i xs @ xs ! i # drop (Suc i) xs)" by simp
    then have "xs ! i \<notin> set (take i xs)" "xs ! i \<notin> set (drop (Suc i) xs)" by auto
    with that yi show False by auto
  qed
  have "filter (\<lambda>x. id' x \<noteq> id' (xs ! i)) xs
      = filter (\<lambda>x. id' x \<noteq> id' (xs ! i)) (take i xs @ xs ! i # drop (Suc i) xs)"
    using i by (simp only: id_take_nth_drop [symmetric])
  also have "\<dots> = filter (\<lambda>x. id' x \<noteq> id' (xs ! i)) (take i xs)
                  @ filter (\<lambda>x. id' x \<noteq> id' (xs ! i)) (drop (Suc i) xs)"
    by simp
  also have "filter (\<lambda>x. id' x \<noteq> id' (xs ! i)) (take i xs) = take i xs"
    by (rule filter_True) (simp add: neq)
  also have "filter (\<lambda>x. id' x \<noteq> id' (xs ! i)) (drop (Suc i) xs) = drop (Suc i) xs"
    by (rule filter_True) (simp add: neq)
  finally show ?thesis by (simp add: removedAt_def)
qed

lemma sortTasks_filter: "filter P (sortTasks xs) = sortTasks (filter P xs)"
  by (simp add: sortTasks_sort_key filter_sort)

lemma shiftedTask_other: "id' x \<notin> set (ids col) \<Longrightarrow> shiftedTask now off col k x = x"
proof -
  assume "id' x \<notin> set (ids col)"
  then have "findIndex (\<lambda>c. id' c = id' x) col = None" by (simp add: findIndex_id_None)
  then show ?thesis by (simp add: shiftedTask_def)
qed

lemma shiftedTask_nth:
  "distinct (ids col) \<Longrightarrow> p < length col \<Longrightarrow>
     shiftedTask now off col k (col ! p) =
       (if k \<le> p then (col ! p)\<lparr>order := Some (int p + off), updatedAt := now\<rparr> else col ! p)"
  by (simp add: shiftedTask_def findIndex_distinct_nth)

lemma distinct_ids_sortTasks: "distinct (ids u) \<Longrightarrow> distinct (ids (sortTasks (filter P u)))"
  by (rule distinct_ids_mset [of "filter P u"]) (simp_all add: distinct_ids_filter)


lemma crossColumn_map:
  fixes localTasks :: "'r Task list"
  assumes d: "distinct (ids localTasks)" and ne: "src \<noteq> dst"
    and n: "findIndex (\<lambda>t. id' t = taskId) localTasks = Some taskIndex"
    and D: "D = sortTasks (filter (\<lambda>t. status t = dst \<and> id' t \<noteq> taskId) localTasks)"
    and S': "S' = sortTasks (filter (\<lambda>t. status t = src \<and> id' t \<noteq> taskId) localTasks)"
  shows "crossColumn now taskId taskIndex src (int i) dst (int j) localTasks =
      Inr (map (crossMoved now taskId dst j D i S') localTasks)"
proof -
  let ?M = "\<lambda>x. if id' x = taskId then movedTask now dst j x else x"
  let ?u1 = "localTasks[taskIndex := (localTasks ! taskIndex)
            \<lparr>status := dst, order := Some (int j), updatedAt := now\<rparr>]"
  \<comment> \<open>the first assignment\<close>
  have "?u1 = (case findIndex (\<lambda>x. id' x = taskId) localTasks of None \<Rightarrow> localTasks
                | Some k \<Rightarrow> localTasks[k := movedTask now dst j (localTasks ! k)])"
    by (simp add: n movedTask_def)
  also have "\<dots> = map ?M localTasks" using d by (rule update_first_by_id)
  finally have u1: "?u1 = map ?M localTasks" .
  have idM: "ids (map ?M localTasks) = ids localTasks"
    by (rule ids_map_preserving) (simp add: movedTask_def)
  have d1: "distinct (ids (map ?M localTasks))" using d by (simp only: idM)
  \<comment> \<open>the destination column as the handler computes it\<close>
  have "filter (\<lambda>t. status t = dst \<and> id' t \<noteq> taskId) (map ?M localTasks)
      = filter (\<lambda>t. status t = dst \<and> id' t \<noteq> taskId) localTasks"
    by (rule filter_map_fixed) (auto simp: movedTask_def)
  then have Dh: "sortTasks (filter (\<lambda>t. status t = dst \<and> id' t \<noteq> taskId) (map ?M localTasks)) = D"
    by (simp only: D)
  have dD: "distinct (ids D)" unfolding D using d by (rule distinct_ids_sortTasks)
  let ?Sh1 = "shiftedTask now 1 D j"
  have "shiftLoop now 1 D (int j) (map ?M localTasks) = Inr (map (shiftedTask now 1 D (nat (int j))) (map ?M localTasks))"
    using d1 dD by (rule shiftLoop_map) simp
  then have u2: "shiftLoop now 1 D (int j) (map ?M localTasks) = Inr (map ?Sh1 (map ?M localTasks))"
    by simp
  have id2: "ids (map ?Sh1 (map ?M localTasks)) = ids (map ?M localTasks)"
    by (rule ids_map_preserving) simp
  have d2: "distinct (ids (map ?Sh1 (map ?M localTasks)))" using d1 by (simp only: id2)
  \<comment> \<open>the source column as the handler computes it\<close>
  have notD: "id' x \<notin> set (ids D)" if x: "x \<in> set localTasks" and sx: "status x \<noteq> dst" for x
  proof
    assume "id' x \<in> set (ids D)"
    then obtain y where y: "y \<in> set D" "id' y = id' x" by (auto simp: ids_def)
    then have "y \<in> set localTasks" "status y = dst" unfolding D by simp_all
    with same_id_same_task [OF d this(1) x y(2)] sx show False by simp
  qed
  have "filter (\<lambda>t. status t = src \<and> id' t \<noteq> taskId) (map (\<lambda>x. ?Sh1 (?M x)) localTasks)
      = filter (\<lambda>t. status t = src \<and> id' t \<noteq> taskId) localTasks"
  proof (rule filter_map_fixed)
    fix x assume "x \<in> set localTasks"
    show "(status (?Sh1 (?M x)) = src \<and> id' (?Sh1 (?M x)) \<noteq> taskId) = (status x = src \<and> id' x \<noteq> taskId)"
      by (simp add: movedTask_def)
  next
    fix x assume x: "x \<in> set localTasks" and p: "status x = src \<and> id' x \<noteq> taskId"
    with ne have "status x \<noteq> dst" by simp
    from notD [OF x this] p show "?Sh1 (?M x) = x" by (simp add: shiftedTask_other)
  qed
  then have Sh: "sortTasks (filter (\<lambda>t. status t = src \<and> id' t \<noteq> taskId) (map ?Sh1 (map ?M localTasks))) = S'"
    by (simp only: S' map_map comp_def)
  have dS: "distinct (ids S')" unfolding S' using d by (rule distinct_ids_sortTasks)
  have "crossColumn now taskId taskIndex src (int i) dst (int j) localTasks
      = shiftLoop now 0 S' (int i) (map ?Sh1 (map ?M localTasks))"
    unfolding crossColumn_def Let_def u1 Dh u2 by (simp only: sum.case Sh)
  also have "\<dots> = Inr (map (shiftedTask now 0 S' (nat (int i))) (map ?Sh1 (map ?M localTasks)))"
    using d2 dS by (rule shiftLoop_map) simp
  also have "\<dots> = Inr (map (crossMoved now taskId dst j D i S') localTasks)"
    unfolding map_map comp_def crossMoved_def by simp
  finally show ?thesis .
qed


lemma cross_column_state:
  fixes localTasks :: "'r Task list"
  assumes d: "distinct (ids localTasks)" and ne: "src \<noteq> dst"
    and i: "i < length (columnOf src localTasks)"
    and n: "findIndex (\<lambda>t. id' t = id' (columnOf src localTasks ! i)) localTasks = Some taskIndex"
  shows "crossColumn now (id' (columnOf src localTasks ! i)) taskIndex src (int i) dst (int j) localTasks =
      Inr (map (crossMoved now (id' (columnOf src localTasks ! i)) dst j (columnOf dst localTasks) i
             (removedAt i (columnOf src localTasks))) localTasks)"
proof -
  let ?S = "columnOf src localTasks"
  let ?D = "columnOf dst localTasks"
  let ?t = "?S ! i"
  have tS: "?t \<in> set ?S" using i by (rule nth_mem)
  then have tl: "?t \<in> set localTasks" and ts: "status ?t = src" by simp_all
  have only: "x = ?t" if "x \<in> set localTasks" "id' x = id' ?t" for x
    using same_id_same_task [OF d that(1) tl that(2)] .
  have "filter (\<lambda>t. status t = dst \<and> id' t \<noteq> id' ?t) localTasks = filter (\<lambda>t. status t = dst) localTasks"
  proof (rule filter_cong [OF refl])
    fix x assume x: "x \<in> set localTasks"
    have "status x \<noteq> dst" if "id' x = id' ?t"
      using only [OF x that] ts ne by simp
    then show "(status x = dst \<and> id' x \<noteq> id' ?t) = (status x = dst)" by blast
  qed
  then have D: "?D = sortTasks (filter (\<lambda>t. status t = dst \<and> id' t \<noteq> id' ?t) localTasks)"
    by (simp add: columnOf_def)
  have "filter (\<lambda>t. status t = src \<and> id' t \<noteq> id' ?t) localTasks
      = filter (\<lambda>t. id' t \<noteq> id' ?t) (filter (\<lambda>t. status t = src) localTasks)"
    by (simp add: conj_commute)
  then have "sortTasks (filter (\<lambda>t. status t = src \<and> id' t \<noteq> id' ?t) localTasks)
      = filter (\<lambda>t. id' t \<noteq> id' ?t) ?S"
    by (simp add: columnOf_def sortTasks_filter)
  also have "\<dots> = removedAt i ?S"
    using distinct_ids_columnOf [OF d] i by (rule filter_other_id)
  finally have S: "removedAt i ?S = sortTasks (filter (\<lambda>t. status t = src \<and> id' t \<noteq> id' ?t) localTasks)"
    by (rule sym)
  from d ne n D S show ?thesis by (rule crossColumn_map)
qed

lemma id_crossMoved [simp]: "id' (crossMoved now taskId dst j D i S' x) = id' x"
  by (simp add: crossMoved_def movedTask_def)

lemma status_crossMoved:
  "status (crossMoved now taskId dst j D i S' x) = (if id' x = taskId then dst else status x)"
  by (simp add: crossMoved_def movedTask_def)

lemma not_in_column:
  assumes d: "distinct (ids localTasks)" and x: "x \<in> set localTasks" and sx: "status x \<noteq> s"
  shows "id' x \<notin> set (ids (columnOf s localTasks))"
proof
  assume "id' x \<in> set (ids (columnOf s localTasks))"
  then obtain y where y: "y \<in> set (columnOf s localTasks)" "id' y = id' x" by (auto simp: ids_def)
  then have "y \<in> set localTasks" "status y = s" by simp_all
  with same_id_same_task [OF d this(1) x y(2)] sx show False by simp
qed

lemma set_removedAt:
  assumes d: "distinct (ids col)" and i: "i < length col"
  shows "set (removedAt i col) = {x \<in> set col. id' x \<noteq> id' (col ! i)}"
  unfolding filter_other_id [OF d i, symmetric] by simp

lemma length_removedAt: "i < length col \<Longrightarrow> length (removedAt i col) = length col - 1"
  by (simp add: removedAt_def)

lemma removedAt_nth:
  "i < length col \<Longrightarrow> p < length col - 1 \<Longrightarrow>
     removedAt i col ! p = (if p < i then col ! p else col ! Suc p)"
  by (simp add: removedAt_def nth_append min_def)

lemma insertedAt_nth:
  assumes j: "j \<le> length col"
  shows "insertedAt j x col ! p = (if p < j then col ! p else if p = j then x else col ! (p - 1))"
proof -
  have l: "length (take j col) = j" using j by simp
  consider "p < j" | "p = j" | "j < p" by linarith
  then show ?thesis
  proof cases
    case 1
    with j show ?thesis by (simp add: insertedAt_def nth_append)
  next
    case 2
    with j show ?thesis by (simp add: insertedAt_def nth_append)
  next
    case 3
    define k where "k = p - j - 1"
    from 3 have k: "p - j = Suc k" "p - 1 = j + k" by (simp_all add: k_def)
    from 3 j have "insertedAt j x col ! p = (x # drop j col) ! (p - j)"
      by (simp add: insertedAt_def nth_append)
    also have "\<dots> = drop j col ! k" by (simp add: k(1))
    also have "\<dots> = col ! (j + k)" using j by (rule nth_drop)
    finally show ?thesis using 3 k(2) by simp
  qed
qed

lemma length_insertedAt [simp]: "length (insertedAt j x col) = Suc (length col)"
  by (simp add: insertedAt_def)

lemma set_insertedAt [simp]: "set (insertedAt j x col) = insert x (set col)"
proof -
  have "set (take j col) \<union> set (drop j col) = set col"
    by (metis append_take_drop_id set_append)
  then show ?thesis by (auto simp: insertedAt_def)
qed

lemma ids_insertedAt: "ids (insertedAt j x col) = insertedAt j (id' x) (ids col)"
  by (simp add: ids_def insertedAt_def take_map drop_map)

lemma distinct_insertedAt: "distinct col \<Longrightarrow> x \<notin> set col \<Longrightarrow> distinct (insertedAt j x col)"
proof -
  assume d: "distinct col" and x: "x \<notin> set col"
  from d have "distinct (take j col @ drop j col)" by simp
  then have "distinct (take j col)" "distinct (drop j col)" "set (take j col) \<inter> set (drop j col) = {}"
    by (simp_all only: distinct_append)
  moreover from x have "x \<notin> set (take j col)" "x \<notin> set (drop j col)"
    by (auto dest: in_set_takeD in_set_dropD)
  ultimately show ?thesis by (simp add: insertedAt_def)
qed

lemma distinct_ids_distinct: "distinct (ids xs) \<Longrightarrow> distinct xs"
  by (simp add: ids_def distinct_map)

lemma crossMoved_moved:
  assumes "id' x = taskId" and "taskId \<notin> set (ids D)" and "taskId \<notin> set (ids S')"
  shows "crossMoved now taskId dst j D i S' x = movedTask now dst j x"
proof -
  have idm: "id' (movedTask now dst j x) = taskId" using assms(1) by (simp add: movedTask_def)
  have 1: "shiftedTask now 1 D j (movedTask now dst j x) = movedTask now dst j x"
    by (rule shiftedTask_other) (simp only: idm assms(2) not_False_eq_True)
  have 2: "shiftedTask now 0 S' i (movedTask now dst j x) = movedTask now dst j x"
    by (rule shiftedTask_other) (simp only: idm assms(3) not_False_eq_True)
  show ?thesis unfolding crossMoved_def using assms(1) by (simp only: refl if_True 1 2)
qed

lemma crossMoved_dest:
  assumes "id' x \<noteq> taskId" and "id' x \<notin> set (ids S')"
  shows "crossMoved now taskId dst j D i S' x = shiftedTask now 1 D j x"
proof -
  have "id' (shiftedTask now 1 D j x) \<notin> set (ids S')" using assms(2) by (simp only: id_shiftedTask not_False_eq_True)
  then have "shiftedTask now 0 S' i (shiftedTask now 1 D j x) = shiftedTask now 1 D j x"
    by (rule shiftedTask_other)
  then show ?thesis unfolding crossMoved_def using assms(1) by (simp only: if_False)
qed

lemma crossMoved_source:
  assumes "id' x \<noteq> taskId" and "id' x \<notin> set (ids D)"
  shows "crossMoved now taskId dst j D i S' x = shiftedTask now 0 S' i x"
proof -
  from assms(2) have "shiftedTask now 1 D j x = x" by (rule shiftedTask_other)
  then show ?thesis unfolding crossMoved_def using assms(1) by (simp only: if_False)
qed

lemma crossMoved_rest:
  assumes "id' x \<noteq> taskId" and "id' x \<notin> set (ids D)" and "id' x \<notin> set (ids S')"
  shows "crossMoved now taskId dst j D i S' x = x"
proof -
  from assms(3) have "shiftedTask now 0 S' i x = x" by (rule shiftedTask_other)
  then show ?thesis by (simp only: crossMoved_source [OF assms(1,2)])
qed

lemma column_after_map:
  fixes localTasks :: "'r Task list"
  assumes d: "distinct (ids localTasks)" and idF: "\<And>x. id' (F x) = id' x"
    and dys: "distinct (ids ys)"
    and set: "set ys = {x \<in> set localTasks. status (F x) = s}"
    and num: "\<And>p. p < length ys \<Longrightarrow> order (F (ys ! p)) = Some (int p)"
  shows "columnOf s (map F localTasks) = map F ys"
proof -
  let ?zs = "filter (\<lambda>x. status (F x) = s) localTasks"
  have f: "filter (\<lambda>t. status t = s) (map F localTasks) = map F ?zs"
    by (simp add: filter_map comp_def)
  have "distinct (ids (map F ?zs))"
    using distinct_ids_filter [OF d, of "\<lambda>x. status (F x) = s"]
    by (simp only: ids_map_preserving [of F, OF idF])
  then have dz: "distinct (map F ?zs)" by (rule distinct_ids_distinct)
  have "distinct (ids (map F ys))" using dys by (simp only: ids_map_preserving [of F, OF idF])
  then have dy: "distinct (map F ys)" by (rule distinct_ids_distinct)
  have "set (map F ?zs) = set (map F ys)" using set by simp
  with dz dy have m: "mset (map F ?zs) = mset (map F ys)"
    by (simp only: set_eq_iff_mset_eq_distinct)
  have "\<forall>p < length (map F ys). order (map F ys ! p) = Some (int p)" using num by simp
  with m have "sortTasks (map F ?zs) = map F ys" by (rule sortTasks_numbered)
  then show ?thesis by (simp add: columnOf_def f)
qed

lemma id_in_ids: "x \<in> set xs \<Longrightarrow> id' x \<in> set (ids xs)"
  by (simp add: ids_def)

lemma crossMoved_cases:
  fixes localTasks :: "'r Task list"
  assumes d: "distinct (ids localTasks)" and ne: "src \<noteq> dst"
    and i: "i < length (columnOf src localTasks)"
    and F: "F = crossMoved now (id' (columnOf src localTasks ! i)) dst j (columnOf dst localTasks) i
                  (removedAt i (columnOf src localTasks))"
  shows "F (columnOf src localTasks ! i) = movedTask now dst j (columnOf src localTasks ! i)"
    and "\<And>p. p < length (columnOf dst localTasks) \<Longrightarrow>
           F (columnOf dst localTasks ! p) =
             (if j \<le> p then (columnOf dst localTasks ! p)\<lparr>order := Some (int p + 1), updatedAt := now\<rparr>
              else columnOf dst localTasks ! p)"
    and "\<And>p. p < length (removedAt i (columnOf src localTasks)) \<Longrightarrow>
           F (removedAt i (columnOf src localTasks) ! p) =
             (if i \<le> p then (removedAt i (columnOf src localTasks) ! p)\<lparr>order := Some (int p), updatedAt := now\<rparr>
              else removedAt i (columnOf src localTasks) ! p)"
    and "\<And>x. x \<in> set localTasks \<Longrightarrow> status x \<noteq> src \<Longrightarrow> status x \<noteq> dst \<Longrightarrow> F x = x"
proof -
  let ?S = "columnOf src localTasks"
  let ?D = "columnOf dst localTasks"
  let ?S' = "removedAt i ?S"
  let ?t = "?S ! i"
  have dS: "distinct (ids ?S)" and dD: "distinct (ids ?D)"
    using d by (rule distinct_ids_columnOf)+
  have tS: "?t \<in> set ?S" using i by (rule nth_mem)
  then have tl: "?t \<in> set localTasks" and ts: "status ?t = src" by simp_all
  have setS': "set ?S' = {x \<in> set ?S. id' x \<noteq> id' ?t}" using dS i by (rule set_removedAt)
  have dS': "distinct (ids ?S')"
    using distinct_ids_filter [OF dS, of "\<lambda>x. id' x \<noteq> id' ?t"]
    by (simp only: filter_other_id [OF dS i])
  have inS': "id' y \<in> set (ids ?S) \<and> id' y \<noteq> id' ?t" if "id' y \<in> set (ids ?S')" for y
  proof -
    from that obtain z where z: "z \<in> set ?S'" "id' z = id' y" by (auto simp: ids_def)
    from z(1) have zS: "z \<in> set ?S" and zt: "id' z \<noteq> id' ?t" unfolding setS' by simp_all
    from zS have "id' z \<in> set (ids ?S)" by (rule id_in_ids)
    with zt show ?thesis unfolding z(2) by blast
  qed
  have other: "id' x \<noteq> id' ?t" if "x \<in> set localTasks" "status x \<noteq> src" for x
  proof
    assume "id' x = id' ?t"
    from same_id_same_task [OF d that(1) tl this] that(2) ts show False by simp
  qed
  have tD: "id' ?t \<notin> set (ids ?D)" using d tl by (rule not_in_column) (simp add: ts ne)
  have tS': "id' ?t \<notin> set (ids ?S')" using inS' [of ?t] by blast
  show "F ?t = movedTask now dst j ?t"
    unfolding F using refl tD tS' by (rule crossMoved_moved)
  show "F (?D ! p) = (if j \<le> p then (?D ! p)\<lparr>order := Some (int p + 1), updatedAt := now\<rparr> else ?D ! p)"
    if p: "p < length ?D" for p
  proof -
    from p have m: "?D ! p \<in> set ?D" by (rule nth_mem)
    then have xl: "?D ! p \<in> set localTasks" and xs: "status (?D ! p) = dst" by simp_all
    have nt: "id' (?D ! p) \<noteq> id' ?t" using xl by (rule other) (simp add: xs ne [symmetric])
    have "id' (?D ! p) \<notin> set (ids ?S)" using d xl by (rule not_in_column) (simp add: xs ne [symmetric])
    with inS' [of "?D ! p"] have nS': "id' (?D ! p) \<notin> set (ids ?S')" by blast
    have "F (?D ! p) = shiftedTask now 1 ?D j (?D ! p)"
      unfolding F using nt nS' by (rule crossMoved_dest)
    also note shiftedTask_nth [OF dD p]
    finally show ?thesis .
  qed
  show "F (?S' ! p) = (if i \<le> p then (?S' ! p)\<lparr>order := Some (int p), updatedAt := now\<rparr> else ?S' ! p)"
    if p: "p < length ?S'" for p
  proof -
    from p have "?S' ! p \<in> set ?S'" by (rule nth_mem)
    then have m: "?S' ! p \<in> set ?S" and nt: "id' (?S' ! p) \<noteq> id' ?t" unfolding setS' by simp_all
    from m have xl: "?S' ! p \<in> set localTasks" and xs: "status (?S' ! p) = src" by simp_all
    have nD: "id' (?S' ! p) \<notin> set (ids ?D)" using d xl by (rule not_in_column) (simp add: xs ne)
    have "F (?S' ! p) = shiftedTask now 0 ?S' i (?S' ! p)"
      unfolding F using nt nD by (rule crossMoved_source)
    also have "\<dots> = (if i \<le> p then (?S' ! p)\<lparr>order := Some (int p + 0), updatedAt := now\<rparr> else ?S' ! p)"
      using dS' p by (rule shiftedTask_nth)
    finally show ?thesis by simp
  qed
  show "F x = x" if x: "x \<in> set localTasks" and s1: "status x \<noteq> src" and s2: "status x \<noteq> dst" for x
  proof -
    have nt: "id' x \<noteq> id' ?t" using x s1 by (rule other)
    have nD: "id' x \<notin> set (ids ?D)" using d x s2 by (rule not_in_column)
    have "id' x \<notin> set (ids ?S)" using d x s1 by (rule not_in_column)
    with inS' [of x] have "id' x \<notin> set (ids ?S')" by blast
    with nt nD show ?thesis unfolding F by (rule crossMoved_rest)
  qed
qed

lemma numbered_nth: "numbered col \<Longrightarrow> p < length col \<Longrightarrow> order (col ! p) = Some (int p)"
proof -
  assume n: "numbered col" and p: "p < length col"
  from p have "order (col ! p) = map order col ! p" by simp
  also have "\<dots> = map (\<lambda>p. Some (int p)) [0..<length col] ! p" using n by (simp only: numbered_def)
  also have "\<dots> = Some (int p)" using p by simp
  finally show ?thesis .
qed

lemma numberedI: "(\<And>p. p < length col \<Longrightarrow> order (col ! p) = Some (int p)) \<Longrightarrow> numbered col"
  unfolding numbered_def by (rule nth_equalityI) simp_all

lemma handleDragEnd_cross_column:
  assumes n: "findIndex (\<lambda>t. id' t = taskId) localTasks = Some taskIndex"
    and s: "src \<in> set COLUMNS" "dst \<in> set COLUMNS" and ne: "src \<noteq> dst"
  shows "handleDragEnd now currentTasks localTasks (dropOf taskId src si dst dj) =
     (case crossColumn now taskId taskIndex src si dst dj localTasks of
        Inl e \<Rightarrow> Inl e
      | Inr updatedTasks \<Rightarrow> Inr (updatedTasks, persistCalls currentTasks updatedTasks))"
proof -
  from n have "taskId \<in> set (ids localTasks)"
    using findIndex_id_None [of taskId localTasks] by auto
  then obtain task where f: "find (\<lambda>t. id' t = taskId) localTasks = Some task"
    using find_None_ids [of taskId localTasks] by (cases "find (\<lambda>t. id' t = taskId) localTasks") auto
  from s ne show ?thesis
    by (simp add: handleDragEnd_def dropOf_def f n)
qed

lemma cross_column_columns:
  fixes localTasks :: "'r Task list"
  assumes d: "distinct (ids localTasks)" and ne: "src \<noteq> dst"
    and i: "i < length (columnOf src localTasks)"
    and F: "F = crossMoved now (id' (columnOf src localTasks ! i)) dst j (columnOf dst localTasks) i
                  (removedAt i (columnOf src localTasks))"
    and nS: "numbered (columnOf src localTasks)" and nD: "numbered (columnOf dst localTasks)"
    and j: "j \<le> length (columnOf dst localTasks)"
  shows "columnOf src (map F localTasks) = map F (removedAt i (columnOf src localTasks))"
    and "numbered (map F (removedAt i (columnOf src localTasks)))"
    and "columnOf dst (map F localTasks)
           = map F (insertedAt j (columnOf src localTasks ! i) (columnOf dst localTasks))"
    and "numbered (map F (insertedAt j (columnOf src localTasks ! i) (columnOf dst localTasks)))"
proof -
  let ?S = "columnOf src localTasks"
  let ?D = "columnOf dst localTasks"
  let ?S' = "removedAt i ?S"
  let ?t = "?S ! i"
  note cases = crossMoved_cases [OF d ne i F]
  have idF: "id' (F x) = id' x" for x unfolding F by simp
  have stF: "status (F x) = (if id' x = id' ?t then dst else status x)" for x
    unfolding F by (rule status_crossMoved)
  have dS: "distinct (ids ?S)" and dD: "distinct (ids ?D)"
    using d by (rule distinct_ids_columnOf)+
  have tS: "?t \<in> set ?S" using i by (rule nth_mem)
  then have tl: "?t \<in> set localTasks" and ts: "status ?t = src" by simp_all
  have only: "id' x = id' ?t \<longleftrightarrow> x = ?t" if "x \<in> set localTasks" for x
    using same_id_same_task [OF d that tl] by auto
  have lS': "length ?S' = length ?S - 1" using i by (rule length_removedAt)
  \<comment> \<open>the source column\<close>
  have dS': "distinct (ids ?S')"
    using distinct_ids_filter [OF dS, of "\<lambda>x. id' x \<noteq> id' ?t"]
    by (simp only: filter_other_id [OF dS i])
  have setS': "set ?S' = {x \<in> set localTasks. status (F x) = src}"
    unfolding set_removedAt [OF dS i] stF using ne by auto
  have numS': "order (F (?S' ! p)) = Some (int p)" if p: "p < length ?S'" for p
  proof (cases "i \<le> p")
    case True
    then show ?thesis by (simp add: cases(3) [OF p])
  next
    case False
    from p lS' have p1: "p < length ?S - 1" by simp
    from False have fx: "F (?S' ! p) = ?S' ! p" by (simp add: cases(3) [OF p])
    from False p1 have "?S' ! p = ?S ! p" "p < length ?S" by (simp_all add: removedAt_nth [OF i p1])
    with numbered_nth [OF nS, of p] show ?thesis unfolding fx by simp
  qed
  show "columnOf src (map F localTasks) = map F ?S'"
    using d idF dS' setS' numS' by (rule column_after_map)
  show "numbered (map F ?S')" by (rule numberedI) (simp add: numS')
  \<comment> \<open>the destination column\<close>
  let ?ys = "insertedAt j ?t ?D"
  have tD: "id' ?t \<notin> set (ids ?D)" using d tl by (rule not_in_column) (simp add: ts ne)
  have dys: "distinct (ids ?ys)" unfolding ids_insertedAt using dD tD by (rule distinct_insertedAt)
  have setys: "set ?ys = {x \<in> set localTasks. status (F x) = dst}"
    unfolding stF using tl only by auto
  have numys: "order (F (?ys ! p)) = Some (int p)" if p: "p < length ?ys" for p
  proof -
    consider "p < j" | "p = j" | "j < p" by linarith
    then show ?thesis
    proof cases
      case 1
      with j have pD: "p < length ?D" by simp
      from 1 have "?ys ! p = ?D ! p" by (simp add: insertedAt_nth [OF j])
      with numbered_nth [OF nD pD] 1 show ?thesis by (simp add: cases(2) [OF pD])
    next
      case 2
      then have "?ys ! p = ?t" by (simp add: insertedAt_nth [OF j])
      with 2 show ?thesis by (simp add: cases(1) movedTask_def)
    next
      case 3
      then obtain q where q: "p = Suc q" by (cases p) auto
      with p 3 have pD: "q < length ?D" and jq: "j \<le> q" by simp_all
      from 3 q have "?ys ! p = ?D ! q" by (simp add: insertedAt_nth [OF j])
      with jq q show ?thesis by (simp add: cases(2) [OF pD])
    qed
  qed
  show "columnOf dst (map F localTasks) = map F ?ys"
    using d idF dys setys numys by (rule column_after_map)
  show "numbered (map F ?ys)" by (rule numberedI) (simp add: numys)
qed

lemma handleDragEnd_cross_column_map:
  fixes localTasks :: "'r Task list"
  assumes d: "distinct (ids localTasks)"
    and s: "src \<in> set COLUMNS" "dst \<in> set COLUMNS" and ne: "src \<noteq> dst"
    and i: "i < length (columnOf src localTasks)"
    and F: "F = crossMoved now (id' (columnOf src localTasks ! i)) dst j (columnOf dst localTasks) i
                  (removedAt i (columnOf src localTasks))"
  shows "handleDragEnd now currentTasks localTasks
           (dropOf (id' (columnOf src localTasks ! i)) src (int i) dst (int j))
      = Inr (map F localTasks, persistCalls currentTasks (map F localTasks))"
proof -
  let ?t = "columnOf src localTasks ! i"
  have "?t \<in> set (columnOf src localTasks)" using i by (rule nth_mem)
  then have "?t \<in> set localTasks" by simp
  then have "id' ?t \<in> set (ids localTasks)" by (rule id_in_ids)
  then obtain taskIndex where n: "findIndex (\<lambda>t. id' t = id' ?t) localTasks = Some taskIndex"
    using findIndex_id_None [of "id' ?t" localTasks]
    by (cases "findIndex (\<lambda>t. id' t = id' ?t) localTasks") auto
  have cc: "crossColumn now (id' ?t) taskIndex src (int i) dst (int j) localTasks = Inr (map F localTasks)"
    unfolding F using d ne i n by (rule cross_column_state)
  show ?thesis unfolding handleDragEnd_cross_column [OF n s ne] cc by simp
qed


subsection \<open>Pushing tasks onto their columns\<close>

lemma emptyGrouped_apply: "emptyGrouped s = (if s \<in> set COLUMNS then Some [] else None)"
  by (simp add: emptyGrouped_def COLUMNS_def)

lemma pushAll_char:
  "pushAll grouped tasks =
     (if \<forall>t \<in> set tasks. status t \<in> dom grouped
      then Inr (\<lambda>s. map_option (\<lambda>c. c @ filter (\<lambda>t. status t = s) tasks) (grouped s))
      else Inl TypeError)"
proof (induction tasks arbitrary: grouped)
  case Nil
  have "(\<lambda>s. map_option (\<lambda>c. c) (grouped s)) = grouped"
    by (simp add: option.map_ident)
  then show ?case by simp
next
  case (Cons task tasks)
  show ?case
  proof (cases "grouped (status task)")
    case None
    then show ?thesis by (auto simp: dom_def)
  next
    case (Some c)
    let ?g = "grouped(status task \<mapsto> c @ [task])"
    have dom: "dom ?g = dom grouped" using Some by auto
    have step: "pushAll grouped (task # tasks) = pushAll ?g tasks" using Some by simp
    have all: "(\<forall>t \<in> set (task # tasks). status t \<in> dom grouped) \<longleftrightarrow> (\<forall>t \<in> set tasks. status t \<in> dom ?g)"
      unfolding dom using Some by auto
    have eq: "(\<lambda>s. map_option (\<lambda>c. c @ filter (\<lambda>t. status t = s) tasks) (?g s))
        = (\<lambda>s. map_option (\<lambda>c. c @ filter (\<lambda>t. status t = s) (task # tasks)) (grouped s))"
      using Some by (auto simp: fun_eq_iff)
    show ?thesis unfolding step Cons.IH [of ?g] all eq ..
  qed
qed


section \<open>Column projection\<close>

text \<open>
  Claim C8 (as amended).  When every task of the list has one of the five known statuses,
  \<open>tasksByStatus\<close> returns the five columns, each holding exactly the tasks of its status,
  sorted by the comparator (order ascending, creation time ascending on ties).  When some
  task has a status outside the known set, the task is not left out: the projection
  throws a \<open>TypeError\<close>.
\<close>

theorem tasksByStatus_known_statuses:
  "tasksByStatus tasks =
     (if \<forall>t \<in> set tasks. status t \<in> set COLUMNS
      then Inr (\<lambda>s. if s \<in> set COLUMNS then Some (columnOf s tasks) else None)
      else Inl TypeError)
   \<and> (\<forall>s. mset (columnOf s tasks) = filter_mset (\<lambda>t. status t = s) (mset tasks)
          \<and> sorted_wrt (\<lambda>a b. compareTasks a b \<le> 0) (columnOf s tasks))"
proof -
  have dom: "dom (emptyGrouped :: TaskStatus \<rightharpoonup> 'a Task list) = set COLUMNS"
    by (auto simp: emptyGrouped_apply dom_def)
  have "tasksByStatus tasks =
     (if \<forall>t \<in> set tasks. status t \<in> set COLUMNS
      then Inr (\<lambda>s. if s \<in> set COLUMNS then Some (columnOf s tasks) else None)
      else Inl TypeError)"
    unfolding tasksByStatus_def pushAll_char dom
    by (auto simp: emptyGrouped_apply columnOf_def fun_eq_iff)
  moreover have "mset (columnOf s tasks) = filter_mset (\<lambda>t. status t = s) (mset tasks)" for s
    by (simp add: columnOf_def sortTasks_sort_key)
  moreover have "sorted_wrt (\<lambda>a b. compareTasks a b \<le> 0) (columnOf s tasks)" for s
    by (simp add: columnOf_def sortTasks_sorted)
  ultimately show ?thesis by blast
qed

theorem tasksByStatus_known_statuses_witness:
  "tasksByStatus todoBoard = Inr (\<lambda>s. if s \<in> set COLUMNS then Some (columnOf s todoBoard) else None)
   \<and> columnOf ''todo'' todoBoard = todoBoard
   \<and> tasksByStatus archivedBoard = Inl TypeError"
proof -
  have k: "\<forall>t \<in> set todoBoard. status t \<in> set COLUMNS"
    by (simp add: todoBoard_def plainTask_def COLUMNS_def)
  have u: "\<not> (\<forall>t \<in> set archivedBoard. status t \<in> set COLUMNS)"
    by (simp add: archivedBoard_def plainTask_def COLUMNS_def)
  have c: "columnOf ''todo'' todoBoard = todoBoard" by code_simp
  from tasksByStatus_known_statuses [of todoBoard] tasksByStatus_known_statuses [of archivedBoard] k u c
  show ?thesis by simp
qed

text \<open>Claim C8 as stated fails: a task of an unknown status is not left out of the
  columns, it makes the projection throw.\<close>

theorem tasksByStatus_unknown_status_throws:
  "tasksByStatus archivedBoard = Inl TypeError"
  by (simp add: tasksByStatus_def emptyGrouped_def COLUMNS_def archivedBoard_def plainTask_def)

section \<open>Guards of the drop handler\<close>

text \<open>
  Claim C4.  A drop whose destination column and index are those of the source (the
  drag library reports the card's current column and position as the source) is a no-op:
  the handler returns at its same-position guard, makes no call to the store and leaves
  the local task list as it was.
\<close>

theorem same_position_no_updates:
  assumes "destination result = Some dest"
    and "droppableId dest = droppableId (source result)"
    and "index dest = index (source result)"
  shows "handleDragEnd now currentTasks localTasks result = Inl SamePosition
       \<and> emittedCalls now currentTasks localTasks result = []
       \<and> localTasksAfter now currentTasks localTasks result = localTasks"
  using assms by (simp add: handleDragEnd_def emittedCalls_def localTasksAfter_def)

theorem same_position_no_updates_witness:
  "handleDragEnd 100 todoBoard todoBoard (dropOf ''b'' ''todo'' 1 ''todo'' 1) = Inl SamePosition
   \<and> emittedCalls 100 todoBoard todoBoard (dropOf ''b'' ''todo'' 1 ''todo'' 1) = []
   \<and> localTasksAfter 100 todoBoard todoBoard (dropOf ''b'' ''todo'' 1 ''todo'' 1) = todoBoard"
proof -
  let ?r = "dropOf ''b'' ''todo'' 1 ''todo'' 1"
  let ?d = "\<lparr>droppableId = ''todo'', index = 1\<rparr>"
  have h1: "destination ?r = Some ?d" by (simp add: dropOf_def)
  have h2: "droppableId ?d = droppableId (source ?r)" by (simp add: dropOf_def)
  have h3: "index ?d = index (source ?r)" by (simp add: dropOf_def)
  show ?thesis by (rule same_position_no_updates [OF h1 h2 h3])
qed

text \<open>
  Claim C5.  When the dragged id is not the id of any task of the list, the handler
  ends at one of its early returns: it makes no call to the store and leaves the local
  task list untouched.  When the drop has a destination other than the source position,
  the return taken is the not-found guard.
\<close>

theorem missing_task_no_updates:
  assumes "draggableId result \<notin> set (ids localTasks)"
  shows "emittedCalls now currentTasks localTasks result = []
       \<and> localTasksAfter now currentTasks localTasks result = localTasks
       \<and> (\<exists>e. handleDragEnd now currentTasks localTasks result = Inl e \<and> e \<noteq> TypeError)
       \<and> (\<forall>dest. destination result = Some dest
              \<and> \<not> (droppableId dest = droppableId (source result) \<and> index dest = index (source result))
            \<longrightarrow> handleDragEnd now currentTasks localTasks result = Inl NotFound)"
proof -
  from assms have f: "find (\<lambda>t. id' t = draggableId result) localTasks = None"
    by (simp add: find_None_ids)
  show ?thesis
    by (cases "destination result")
       (auto simp: handleDragEnd_def emittedCalls_def localTasksAfter_def f Let_def)
qed

theorem missing_task_no_updates_witness:
  "''missing-id'' \<notin> set (ids todoBoard)
   \<and> emittedCalls 100 todoBoard todoBoard (dropOf ''missing-id'' ''todo'' 0 ''done'' 0) = []
   \<and> localTasksAfter 100 todoBoard todoBoard (dropOf ''missing-id'' ''todo'' 0 ''done'' 0) = todoBoard
   \<and> handleDragEnd 100 todoBoard todoBoard (dropOf ''missing-id'' ''todo'' 0 ''done'' 0) = Inl NotFound"
proof -
  let ?r = "dropOf ''missing-id'' ''todo'' 0 ''done'' 0"
  have h: "draggableId ?r \<notin> set (ids todoBoard)"
    by (simp add: dropOf_def ids_def todoBoard_def plainTask_def)
  have d: "destination ?r = Some \<lparr>droppableId = ''done'', index = 0\<rparr>
      \<and> \<not> (droppableId \<lparr>droppableId = ''done'', index = 0\<rparr> = droppableId (source ?r)
            \<and> index \<lparr>droppableId = ''done'', index = 0\<rparr> = index (source ?r))"
    by (simp add: dropOf_def)
  from missing_task_no_updates [OF h, of 100 todoBoard] d h show ?thesis
    by (simp add: dropOf_def)
qed

text \<open>
  Claim C6.  When the destination of a drop is not one of the five columns, the handler
  ends at one of its early returns: it makes no call to the store and leaves the local
  task list untouched.  For an existing task dropped away from its source position the
  return taken is the status validation.
\<close>

theorem invalid_destination_no_updates:
  assumes "destination result = Some dest" and "droppableId dest \<notin> set COLUMNS"
  shows "emittedCalls now currentTasks localTasks result = []
       \<and> localTasksAfter now currentTasks localTasks result = localTasks
       \<and> (\<exists>e. handleDragEnd now currentTasks localTasks result = Inl e \<and> e \<noteq> TypeError)
       \<and> (draggableId result \<in> set (ids localTasks)
              \<and> \<not> (droppableId dest = droppableId (source result) \<and> index dest = index (source result))
            \<longrightarrow> handleDragEnd now currentTasks localTasks result = Inl InvalidStatus)"
proof -
  have "handleDragEnd now currentTasks localTasks result = Inl SamePosition
      \<or> handleDragEnd now currentTasks localTasks result = Inl NotFound
      \<or> handleDragEnd now currentTasks localTasks result = Inl InvalidStatus"
    using assms by (auto simp: handleDragEnd_def Let_def split: option.splits)
  moreover have "draggableId result \<in> set (ids localTasks)
              \<and> \<not> (droppableId dest = droppableId (source result) \<and> index dest = index (source result))
            \<longrightarrow> handleDragEnd now currentTasks localTasks result = Inl InvalidStatus"
    using assms by (auto simp: handleDragEnd_def Let_def find_None_ids split: option.splits)
  ultimately show ?thesis
    by (auto simp: emittedCalls_def localTasksAfter_def)
qed

theorem invalid_destination_no_updates_witness:
  "''archived'' \<notin> set COLUMNS
   \<and> emittedCalls 100 todoBoard todoBoard (dropOf ''a'' ''todo'' 0 ''archived'' 0) = []
   \<and> localTasksAfter 100 todoBoard todoBoard (dropOf ''a'' ''todo'' 0 ''archived'' 0) = todoBoard
   \<and> handleDragEnd 100 todoBoard todoBoard (dropOf ''a'' ''todo'' 0 ''archived'' 0) = Inl InvalidStatus"
proof -
  let ?r = "dropOf ''a'' ''todo'' 0 ''archived'' 0"
  let ?d = "\<lparr>droppableId = ''archived'', index = 0\<rparr>"
  have h1: "destination ?r = Some ?d" by (simp add: dropOf_def)
  have h2: "droppableId ?d \<notin> set COLUMNS" by (simp add: COLUMNS_def)
  have h3: "draggableId ?r \<in> set (ids todoBoard)
      \<and> \<not> (droppableId ?d = droppableId (source ?r) \<and> index ?d = index (source ?r))"
    by (simp add: dropOf_def ids_def todoBoard_def plainTask_def)
  from invalid_destination_no_updates [OF h1 h2, of 100 todoBoard todoBoard] h2 h3 show ?thesis
    by simp
qed

section \<open>Reordering within a column\<close>


text \<open>
  When in addition the dragged card is the one at position \<open>i\<close>, the destination index is
  another position \<open>j\<close> and the context is in step with the local list, the handler does
  what a reordering asks for: the card sits at \<open>j\<close> (when \<open>j\<close> is a position of the column),
  the column is numbered 0, 1, 2, ..., and the calls made to the store are exactly one
  order update for each task whose new order differs from its old one.
\<close>

lemma same_column_in_step:
  fixes localTasks :: "'r Task list"
  assumes d: "distinct (ids localTasks)" and s: "s \<in> set COLUMNS"
    and i: "i < length (columnOf s localTasks)" and ij: "j \<noteq> i"
  shows "\<exists>updatedTasks calls.
      handleDragEnd now localTasks localTasks (dropOf (id' (columnOf s localTasks ! i)) s (int i) s (int j))
        = Inr (updatedTasks, calls)
    \<and> ids (columnOf s updatedTasks) = ids (reinserted i j (columnOf s localTasks))
    \<and> (j < length (columnOf s localTasks) \<longrightarrow>
          ids (columnOf s updatedTasks) ! j = id' (columnOf s localTasks ! i))
    \<and> map order (columnOf s updatedTasks) = map (\<lambda>p. Some (int p)) [0..<length (columnOf s localTasks)]
    \<and> filter (\<lambda>t. status t \<noteq> s) updatedTasks = filter (\<lambda>t. status t \<noteq> s) localTasks
    \<and> distinct calls
    \<and> set calls =
        {UpdateTaskOrder (id' t) (Some (int p)) | t p.
           p < length (columnOf s localTasks) \<and> t = reinserted i j (columnOf s localTasks) ! p
           \<and> order t \<noteq> Some (int p)}"
proof -
  let ?col = "columnOf s localTasks"
  let ?seq = "reinserted i j ?col"
  let ?rl = "renumberedTask now ?seq 0"
  let ?upd = "map ?rl localTasks"
  have sq: "?seq = reinserted i (spliceStart (int j) (length ?col - 1)) ?col"
    unfolding spliceStart_int using reinserted_min [OF i, of j] by simp
  note st = same_column_state [where dj = "int j" and now = now, OF d i sq refl]
  have len: "length ?seq = length ?col" using i by (rule length_reinserted)
  from i have "?col ! i \<in> set ?col" by (rule nth_mem)
  then have mem: "?col ! i \<in> set localTasks" by simp
  then have tid: "id' (?col ! i) \<in> set (ids localTasks)" by (simp add: ids_def)
  from ij have ij': "int j \<noteq> int i" by simp
  have h: "handleDragEnd now localTasks localTasks (dropOf (id' (?col ! i)) s (int i) s (int j))
      = Inr (?upd, persistCalls localTasks ?upd)"
    unfolding handleDragEnd_same_column [OF tid s ij'] st(1) by simp
  have c1: "ids (columnOf s ?upd) = ids ?seq"
    unfolding st(2) by (rule ids_map_preserving) simp
  have c2: "ids (columnOf s ?upd) ! j = id' (?col ! i)" if "j < length ?col"
    unfolding c1 using that i len by (simp add: ids_def reinserted_nth)
  have c3: "map order (columnOf s ?upd) = map (\<lambda>p. Some (int p)) [0..<length ?col]"
  proof (rule nth_equalityI)
    show "length (map order (columnOf s ?upd)) = length (map (\<lambda>p. Some (int p)) [0..<length ?col])"
      unfolding st(2) by (simp add: len)
  next
    fix p assume "p < length (map order (columnOf s ?upd))"
    then have p: "p < length ?seq" unfolding st(2) by simp
    with order_renumberedTask [OF st(4) p, of now 0] len
    show "map order (columnOf s ?upd) ! p = map (\<lambda>p. Some (int p)) [0..<length ?col] ! p"
      unfolding st(2) by simp
  qed
  have c4: "filter (\<lambda>t. status t \<noteq> s) ?upd = filter (\<lambda>t. status t \<noteq> s) localTasks"
  proof -
    have "filter (\<lambda>t. status t \<noteq> s) ?upd = map ?rl (filter (\<lambda>t. status t \<noteq> s) localTasks)"
      by (simp add: filter_map comp_def)
    also have "\<dots> = filter (\<lambda>t. status t \<noteq> s) localTasks"
      by (rule map_idI) (simp add: st(3))
    finally show ?thesis .
  qed
  have "set ?seq = set ?col" using mset_reinserted [OF i, of j] by (metis set_mset_mset)
  then have sub: "set ?seq \<subseteq> set localTasks" by auto
  have c5: "set (persistCalls localTasks ?upd) =
        {UpdateTaskOrder (id' t) (Some (int p)) | t p.
           p < length ?col \<and> t = ?seq ! p \<and> order t \<noteq> Some (int p)}"
    unfolding same_column_calls(1) [OF d st(4) sub] len ..
  have c6: "distinct (persistCalls localTasks ?upd)"
    using d st(4) sub by (rule same_column_calls(2))
  from h c1 c2 c3 c4 c5 c6 show ?thesis by blast
qed

text \<open>
  Claim C2 is not met by the board.  Two drops on the board of the reordering example,
  \<open>a, b, c\<close> with the orders 0, 1, 2.  The first drop is the example of the specification,
  \<open>a\<close> to position 2: the local list becomes \<open>b, c, a\<close> with the orders 0, 1, 2, and three
  order updates are emitted.  The store keeps only the last of them (\<open>c\<close> gets the order
  1), and the effect that synchronises the local list does nothing, because no task was
  added or removed: the context now holds the orders \<open>a\<close> 0, \<open>b\<close> 1, \<open>c\<close> 1 while the board
  shows \<open>b, c, a\<close>.  The second drop moves \<open>b\<close> from position 0 to position 1.  On the local
  list this gives \<open>c, b, a\<close>: the order of \<open>b\<close> changes from 0 to 1, that of \<open>c\<close> from 1 to 0,
  that of \<open>a\<close> stays 2.  The updates emitted are one for \<open>a\<close>, whose order did not change,
  and one for \<open>c\<close>; none is emitted for \<open>b\<close>, whose order did change, because the handler
  compares the new orders with those of the context.

  The handler also takes the card to move from the source index alone.  On a column
  \<open>h, a, b\<close> with \<open>h\<close> hidden by the project filter the board shows \<open>a, b\<close>; dragging \<open>a\<close>
  (index 0 of what is shown) below \<open>b\<close> (index 1) makes the handler take out the card at
  position 0 of the whole column, which is \<open>h\<close>, and put it back at position 1: the column
  becomes \<open>a, h, b\<close>, and the board still shows \<open>a, b\<close>; the dragged card was not moved to
  index 1.
\<close>

theorem same_column_reorder_not_met:
  "localTasksAfter 100 todoBoard todoBoard (dropOf ''a'' ''todo'' 0 ''todo'' 2) = reorderedBoard
   \<and> emittedCalls 100 todoBoard todoBoard (dropOf ''a'' ''todo'' 0 ''todo'' 2)
       = [UpdateTaskOrder ''a'' (Some 2), UpdateTaskOrder ''b'' (Some 0), UpdateTaskOrder ''c'' (Some 1)]
   \<and> applyCalls 100 [UpdateTaskOrder ''a'' (Some 2), UpdateTaskOrder ''b'' (Some 0), UpdateTaskOrder ''c'' (Some 1)]
        (Some todoBoard) = Some staleBoard
   \<and> syncLocalTasks (length todoBoard) staleBoard reorderedBoard = (reorderedBoard, length todoBoard)
   \<and> ids (columnOf ''todo'' reorderedBoard) = [''b'', ''c'', ''a'']
   \<and> map order (columnOf ''todo'' reorderedBoard) = [Some 0, Some 1, Some 2]
   \<and> ids (columnOf ''todo'' (localTasksAfter 200 staleBoard reorderedBoard (dropOf ''b'' ''todo'' 0 ''todo'' 1)))
       = [''c'', ''b'', ''a'']
   \<and> map order (columnOf ''todo'' (localTasksAfter 200 staleBoard reorderedBoard (dropOf ''b'' ''todo'' 0 ''todo'' 1)))
       = [Some 0, Some 1, Some 2]
   \<and> emittedCalls 200 staleBoard reorderedBoard (dropOf ''b'' ''todo'' 0 ''todo'' 1)
       = [UpdateTaskOrder ''a'' (Some 2), UpdateTaskOrder ''c'' (Some 0)]
   \<and> ids (columnOf ''todo'' hiddenBoard) = [''h'', ''a'', ''b'']
   \<and> ids (columnOf ''todo'' (filteredTasks rest (\<lambda>task. None) ''p1'' ''all'' hiddenBoard)) = [''a'', ''b'']
   \<and> ids (columnOf ''todo'' (localTasksAfter 100 hiddenBoard hiddenBoard (dropOf ''a'' ''todo'' 0 ''todo'' 1)))
       = [''a'', ''h'', ''b'']
   \<and> ids (columnOf ''todo'' (filteredTasks rest (\<lambda>task. None) ''p1'' ''all''
             (localTasksAfter 100 hiddenBoard hiddenBoard (dropOf ''a'' ''todo'' 0 ''todo'' 1))))
       = [''a'', ''b'']"
  by code_simp

section \<open>Moving a card to another column\<close>

text \<open>
  What a drop in another column does to the local list.  Let the ids of the task list
  be distinct and let the card at position \<open>i\<close> of the source column be dropped at index
  \<open>j\<close> of another column.  Then the handler completes, and in the new local list: the
  moved task has the destination status and the order \<open>j\<close>; the task at position \<open>p \<ge> j\<close>
  of the destination column has the order \<open>p + 1\<close>, those before \<open>j\<close> are unchanged; the
  task at position \<open>p \<ge> i\<close> of the source column without the moved card has the order
  \<open>p\<close>, those before \<open>i\<close> are unchanged; tasks of other columns are unchanged.  When both
  columns were numbered 0, 1, 2, ... before the move and \<open>j\<close> is at most the length of
  the destination column, these are shifts by +1 and by -1, the source column has lost
  exactly the moved card and is numbered 0..n-2, and the destination column has gained
  it at position \<open>j\<close> and is numbered 0..m.
\<close>

lemma cross_column_on_numbered_columns:
  fixes localTasks :: "'r Task list"
  assumes d: "distinct (ids localTasks)"
    and s: "src \<in> set COLUMNS" "dst \<in> set COLUMNS" and ne: "src \<noteq> dst"
    and i: "i < length (columnOf src localTasks)"
  shows
   "let S = columnOf src localTasks; D = columnOf dst localTasks; S' = removedAt i S in
    \<exists>updatedTasks calls.
      handleDragEnd now currentTasks localTasks (dropOf (id' (S ! i)) src (int i) dst (int j))
        = Inr (updatedTasks, calls)
    \<and> length updatedTasks = length localTasks
    \<and> (\<forall>n < length localTasks.
         (localTasks ! n = S ! i \<longrightarrow>
            updatedTasks ! n = (S ! i)\<lparr>status := dst, order := Some (int j), updatedAt := now\<rparr>)
       \<and> (\<forall>p < length D. localTasks ! n = D ! p \<longrightarrow>
            updatedTasks ! n = (if j \<le> p then (D ! p)\<lparr>order := Some (int p + 1), updatedAt := now\<rparr> else D ! p))
       \<and> (\<forall>p < length S'. localTasks ! n = S' ! p \<longrightarrow>
            updatedTasks ! n = (if i \<le> p then (S' ! p)\<lparr>order := Some (int p), updatedAt := now\<rparr> else S' ! p))
       \<and> (status (localTasks ! n) \<noteq> src \<and> status (localTasks ! n) \<noteq> dst \<longrightarrow>
            updatedTasks ! n = localTasks ! n))
    \<and> (numbered S \<and> numbered D \<and> j \<le> length D \<longrightarrow>
         ids (columnOf src updatedTasks) = ids S'
       \<and> length (columnOf src updatedTasks) = length S - 1
       \<and> numbered (columnOf src updatedTasks)
       \<and> ids (columnOf dst updatedTasks) = insertedAt j (id' (S ! i)) (ids D)
       \<and> length (columnOf dst updatedTasks) = length D + 1
       \<and> numbered (columnOf dst updatedTasks)
       \<and> (\<forall>n < length localTasks. \<forall>p < length D. j \<le> p \<and> localTasks ! n = D ! p \<longrightarrow>
             order (updatedTasks ! n) = map_option (\<lambda>k. k + 1) (order (localTasks ! n)))
       \<and> (\<forall>n < length localTasks. \<forall>p < length S'. i \<le> p \<and> localTasks ! n = S' ! p \<longrightarrow>
             order (updatedTasks ! n) = map_option (\<lambda>k. k - 1) (order (localTasks ! n))))"
proof -
  let ?S = "columnOf src localTasks"
  let ?D = "columnOf dst localTasks"
  let ?S' = "removedAt i ?S"
  let ?t = "?S ! i"
  define F where "F = crossMoved now (id' ?t) dst j ?D i ?S'"
  let ?upd = "map F localTasks"
  note cases = crossMoved_cases [OF d ne i F_def]
  have h: "handleDragEnd now currentTasks localTasks (dropOf (id' ?t) src (int i) dst (int j))
      = Inr (?upd, persistCalls currentTasks ?upd)"
    using d s ne i F_def by (rule handleDragEnd_cross_column_map)
  have len: "length ?upd = length localTasks" by simp
  have lS': "length ?S' = length ?S - 1" using i by (rule length_removedAt)
  have el: "(localTasks ! n = ?t \<longrightarrow>
            ?upd ! n = ?t\<lparr>status := dst, order := Some (int j), updatedAt := now\<rparr>)
       \<and> (\<forall>p < length ?D. localTasks ! n = ?D ! p \<longrightarrow>
            ?upd ! n = (if j \<le> p then (?D ! p)\<lparr>order := Some (int p + 1), updatedAt := now\<rparr> else ?D ! p))
       \<and> (\<forall>p < length ?S'. localTasks ! n = ?S' ! p \<longrightarrow>
            ?upd ! n = (if i \<le> p then (?S' ! p)\<lparr>order := Some (int p), updatedAt := now\<rparr> else ?S' ! p))
       \<and> (status (localTasks ! n) \<noteq> src \<and> status (localTasks ! n) \<noteq> dst \<longrightarrow>
            ?upd ! n = localTasks ! n)" if n: "n < length localTasks" for n
  proof -
    from n have u: "?upd ! n = F (localTasks ! n)" by simp
    from n have m: "localTasks ! n \<in> set localTasks" by (rule nth_mem)
    show ?thesis unfolding u
    proof (intro conjI allI impI)
      assume "localTasks ! n = ?t"
      then show "F (localTasks ! n) = ?t\<lparr>status := dst, order := Some (int j), updatedAt := now\<rparr>"
        by (simp only: cases(1) movedTask_def)
    next
      fix p assume "p < length ?D" "localTasks ! n = ?D ! p"
      then show "F (localTasks ! n) = (if j \<le> p then (?D ! p)\<lparr>order := Some (int p + 1), updatedAt := now\<rparr> else ?D ! p)"
        by (simp only: cases(2))
    next
      fix p assume "p < length ?S'" "localTasks ! n = ?S' ! p"
      then show "F (localTasks ! n) = (if i \<le> p then (?S' ! p)\<lparr>order := Some (int p), updatedAt := now\<rparr> else ?S' ! p)"
        by (simp only: cases(3))
    next
      assume "status (localTasks ! n) \<noteq> src \<and> status (localTasks ! n) \<noteq> dst"
      then have "status (localTasks ! n) \<noteq> src" "status (localTasks ! n) \<noteq> dst" by simp_all
      with m show "F (localTasks ! n) = localTasks ! n" by (rule cases(4))
    qed
  qed
  have cont: "ids (columnOf src ?upd) = ids ?S'
       \<and> length (columnOf src ?upd) = length ?S - 1
       \<and> numbered (columnOf src ?upd)
       \<and> ids (columnOf dst ?upd) = insertedAt j (id' ?t) (ids ?D)
       \<and> length (columnOf dst ?upd) = length ?D + 1
       \<and> numbered (columnOf dst ?upd)
       \<and> (\<forall>n < length localTasks. \<forall>p < length ?D. j \<le> p \<and> localTasks ! n = ?D ! p \<longrightarrow>
             order (?upd ! n) = map_option (\<lambda>k. k + 1) (order (localTasks ! n)))
       \<and> (\<forall>n < length localTasks. \<forall>p < length ?S'. i \<le> p \<and> localTasks ! n = ?S' ! p \<longrightarrow>
             order (?upd ! n) = map_option (\<lambda>k. k - 1) (order (localTasks ! n)))"
    if nS: "numbered ?S" and nD: "numbered ?D" and j: "j \<le> length ?D"
  proof -
    note cols = cross_column_columns [OF d ne i F_def nS nD j]
    have idF: "ids (map F xs) = ids xs" for xs
      by (rule ids_map_preserving) (simp add: F_def)
    have 1: "ids (columnOf src ?upd) = ids ?S'" unfolding cols(1) by (rule idF)
    have 2: "length (columnOf src ?upd) = length ?S - 1" unfolding cols(1) by (simp add: lS')
    have 3: "numbered (columnOf src ?upd)" unfolding cols(1) by (rule cols(2))
    have 4: "ids (columnOf dst ?upd) = insertedAt j (id' ?t) (ids ?D)"
      unfolding cols(3) idF by (rule ids_insertedAt)
    have 5: "length (columnOf dst ?upd) = length ?D + 1" unfolding cols(3) by simp
    have 6: "numbered (columnOf dst ?upd)" unfolding cols(3) by (rule cols(4))
    have 7: "order (?upd ! n) = map_option (\<lambda>k. k + 1) (order (localTasks ! n))"
      if "n < length localTasks" "p < length ?D" "j \<le> p" "localTasks ! n = ?D ! p" for n p
    proof -
      from that have "?upd ! n = (?D ! p)\<lparr>order := Some (int p + 1), updatedAt := now\<rparr>"
        by (simp add: cases(2))
      with numbered_nth [OF nD that(2)] that(4) show ?thesis by simp
    qed
    have 8: "order (?upd ! n) = map_option (\<lambda>k. k - 1) (order (localTasks ! n))"
      if "n < length localTasks" "p < length ?S'" "i \<le> p" "localTasks ! n = ?S' ! p" for n p
    proof -
      from that have "?upd ! n = (?S' ! p)\<lparr>order := Some (int p), updatedAt := now\<rparr>"
        by (simp add: cases(3))
      moreover from that(2) lS' have p1: "p < length ?S - 1" by simp
      with that(3) have "?S' ! p = ?S ! Suc p" "Suc p < length ?S"
        by (simp_all add: removedAt_nth [OF i p1])
      with numbered_nth [OF nS, of "Suc p"] have "order (?S' ! p) = Some (int (Suc p))" by simp
      ultimately show ?thesis using that(4) by simp
    qed
    from 1 2 3 4 5 6 7 8 show ?thesis by blast
  qed
  from h len el cont show ?thesis unfolding Let_def by blast
qed

text \<open>
  Claim C3 is not met by the handler.  On a board whose \<open>done\<close> column holds \<open>x\<close> with the
  order 5 and \<open>y\<close> with the order 7, dropping \<open>a\<close> from \<open>todo\<close> at index 1 of \<open>done\<close> asks for
  the sequence \<open>x, a, y\<close> with contiguous orders 0, 1, 2, the task \<open>y\<close> behind the index
  shifted by +1.  The handler gives \<open>a\<close> the order 1 and \<open>y\<close> the order 2 (its position
  plus one, not its order plus one) and leaves \<open>x\<close>, which is before the index, with the
  order 5: the column is left with the orders 1, 2, 5 and sorts as \<open>a, y, x\<close>.
\<close>

theorem cross_column_gap_not_renumbered:
  "ids (columnOf ''done'' gapBoard) = [''x'', ''y'']
   \<and> map order (columnOf ''done'' gapBoard) = [Some 5, Some 7]
   \<and> insertedAt 1 ''a'' (ids (columnOf ''done'' gapBoard)) = [''x'', ''a'', ''y'']
   \<and> ids (columnOf ''done'' (localTasksAfter 100 gapBoard gapBoard (dropOf ''a'' ''todo'' 0 ''done'' 1)))
       = [''a'', ''y'', ''x'']
   \<and> map order (columnOf ''done'' (localTasksAfter 100 gapBoard gapBoard (dropOf ''a'' ''todo'' 0 ''done'' 1)))
       = [Some 1, Some 2, Some 5]"
  by code_simp

section \<open>A destination index outside the column\<close>




section \<open>Columns whose cards have no order yet\<close>

text \<open>
  Claim C1 is not met by the handler.  On a board whose \<open>done\<close> column holds \<open>b\<close> and \<open>c\<close>,
  neither with an order, dropping \<open>a\<close> from \<open>todo\<close> at index 1 of \<open>done\<close> asks for the
  sequence \<open>b, a, c\<close>.  The handler gives \<open>a\<close> the order 1 and \<open>c\<close> the order 2 and leaves
  \<open>b\<close> without one, so in the local list the column sorts as \<open>a, c, b\<close>.  Of the three
  calls emitted the store keeps the last, the order of \<open>c\<close>: there the \<open>done\<close> column is
  \<open>c, b\<close> and \<open>a\<close> is still in \<open>todo\<close>.
\<close>

theorem cross_column_unordered_destination:
  "ids (columnOf ''done'' freshBoard) = [''b'', ''c'']
   \<and> insertedAt 1 ''a'' (ids (columnOf ''done'' freshBoard)) = [''b'', ''a'', ''c'']
   \<and> ids (columnOf ''done'' (localTasksAfter 100 freshBoard freshBoard (dropOf ''a'' ''todo'' 0 ''done'' 1)))
       = [''a'', ''c'', ''b'']
   \<and> emittedCalls 100 freshBoard freshBoard (dropOf ''a'' ''todo'' 0 ''done'' 1)
       = [UpdateTaskStatus ''a'' ''done'', UpdateTaskOrder ''a'' (Some 1), UpdateTaskOrder ''c'' (Some 2)]
   \<and> map_option (\<lambda>stored. (ids (columnOf ''todo'' stored), ids (columnOf ''done'' stored)))
        (applyCalls 100 (emittedCalls 100 freshBoard freshBoard (dropOf ''a'' ''todo'' 0 ''done'' 1))
           (Some freshBoard))
       = Some ([''a''], [''c'', ''b''])"
  by code_simp

text \<open>
  Claim C9 is not met by the handler.  On a \<open>todo\<close> column \<open>x, t\<close> whose cards have no
  order, moving \<open>t\<close> (position 1) to \<open>done\<close> and back to position 1 of \<open>todo\<close> leaves the
  column sorted as \<open>t, x\<close>: \<open>t\<close> comes back with the order 1, \<open>x\<close> still has none.
\<close>

theorem round_trip_unordered_column:
  "ids (columnOf ''todo'' pairBoard) = [''x'', ''t'']
   \<and> (case applyCalls 100 (emittedCalls 100 pairBoard pairBoard (dropOf ''t'' ''todo'' 1 ''done'' 0))
              (Some pairBoard) of
        None \<Rightarrow> []
      | Some stored \<Rightarrow>
          ids (columnOf ''todo''
            (localTasksAfter 200 stored
               (localTasksAfter 100 pairBoard pairBoard (dropOf ''t'' ''todo'' 1 ''done'' 0))
               (dropOf ''t'' ''done'' 0 ''todo'' 1))))
       = [''t'', ''x'']"
  by code_simp

section \<open>The task store: updating one task\<close>

text \<open>
  Claim C10.  \<open>updateTask\<close> writes back a list of the same length in which every task
  whose id is not the given one is unchanged, field for field; when the ids of the list
  are distinct at most one position changes; when no task has the id the list written
  back is the list read.  It always writes a list back: no error is raised.
\<close>

theorem updateTask_frame:
  "\<exists>tasks'. updateTask now i updates (Some tasks) = Some tasks'
      \<and> length tasks' = length tasks
      \<and> (\<forall>n < length tasks. id' (tasks ! n) \<noteq> i \<longrightarrow> tasks' ! n = tasks ! n)
      \<and> (distinct (ids tasks) \<longrightarrow>
            (\<forall>m < length tasks. \<forall>n < length tasks.
               tasks' ! m \<noteq> tasks ! m \<and> tasks' ! n \<noteq> tasks ! n \<longrightarrow> m = n))
      \<and> (i \<notin> set (ids tasks) \<longrightarrow> tasks' = tasks)"
proof -
  let ?f = "\<lambda>t. if id' t = i then mergeTask now updates t else t"
  have 1: "updateTask now i updates (Some tasks) = Some (map ?f tasks)"
    by (simp add: updateTask_def)
  have 2: "\<forall>n < length tasks. id' (tasks ! n) \<noteq> i \<longrightarrow> map ?f tasks ! n = tasks ! n"
    by simp
  have 3: "m = n" if d: "distinct (ids tasks)" and m: "m < length tasks" and n: "n < length tasks"
    and cm: "map ?f tasks ! m \<noteq> tasks ! m" and cn: "map ?f tasks ! n \<noteq> tasks ! n" for m n
  proof -
    from m cm have "id' (tasks ! m) = i" by (auto split: if_splits)
    moreover from n cn have "id' (tasks ! n) = i" by (auto split: if_splits)
    ultimately have "ids tasks ! m = ids tasks ! n" using m n by (simp add: ids_def)
    moreover have "m < length (ids tasks)" "n < length (ids tasks)"
      using m n by (simp_all add: ids_def)
    ultimately show ?thesis using d by (simp add: nth_eq_iff_index_eq)
  qed
  have 4: "i \<notin> set (ids tasks) \<longrightarrow> map ?f tasks = tasks"
    by (induction tasks) (simp_all add: ids_def)
  show ?thesis using 1 2 3 4 by (intro exI[of _ "map ?f tasks"]) (simp; blast)
qed

theorem updateTask_frame_witness:
  "distinct (ids todoBoard) \<and> ''zz'' \<notin> set (ids todoBoard)
   \<and> updateTask 100 ''zz'' (noUpdates\<lparr>new_order := Some (Some 7)\<rparr>) (Some todoBoard) = Some todoBoard
   \<and> (\<exists>tasks'. updateTask 100 ''b'' (noUpdates\<lparr>new_order := Some (Some 7)\<rparr>) (Some todoBoard) = Some tasks'
        \<and> tasks' ! 0 = todoBoard ! 0 \<and> tasks' ! 2 = todoBoard ! 2 \<and> tasks' ! 1 \<noteq> todoBoard ! 1)"
proof -
  have d: "distinct (ids todoBoard)" and z: "''zz'' \<notin> set (ids todoBoard)"
    by (simp_all add: ids_def todoBoard_def plainTask_def)
  have l: "length todoBoard = 3"
    and n0: "id' (todoBoard ! 0) \<noteq> ''b''" and n2: "id' (todoBoard ! 2) \<noteq> ''b''"
    by (simp_all add: todoBoard_def plainTask_def)
  from updateTask_frame [of 100 "''zz''" "noUpdates\<lparr>new_order := Some (Some 7)\<rparr>" todoBoard] z
  have a: "updateTask 100 ''zz'' (noUpdates\<lparr>new_order := Some (Some 7)\<rparr>) (Some todoBoard) = Some todoBoard"
    by auto
  from updateTask_frame [of 100 "''b''" "noUpdates\<lparr>new_order := Some (Some 7)\<rparr>" todoBoard]
  obtain tasks' where t: "updateTask 100 ''b'' (noUpdates\<lparr>new_order := Some (Some 7)\<rparr>) (Some todoBoard) = Some tasks'"
    and f: "\<forall>n < length todoBoard. id' (todoBoard ! n) \<noteq> ''b'' \<longrightarrow> tasks' ! n = todoBoard ! n"
    by blast
  from f l n0 n2 have "tasks' ! 0 = todoBoard ! 0" "tasks' ! 2 = todoBoard ! 2" by simp_all
  moreover from t have "tasks' ! 1 \<noteq> todoBoard ! 1"
    by (auto simp: updateTask_def mergeTask_def noUpdates_def todoBoard_def plainTask_def)
  ultimately show ?thesis using d z a t by blast
qed

end
